theory Spec2Isabelle
  imports
    Main
    "HOL-Library.AList"
    "HOL-Library.Multiset"
    "HOL-Library.Char_ord"
    "HOL-Library.List_Lexorder"
begin

section \<open>The board model (generator/board.py)\<close>

text \<open>
  A vehicle is the five fields of the Python class. The orientation stays a string: the
  code only ever compares it with \<open>''horizontal''\<close> and treats every other value as
  vertical. Rows, columns, lengths and the board size are Python integers.
\<close>

record vehicle =
  id_v :: string
  orientation :: string
  length_v :: int
  row :: int
  col :: int

type_synonym cell = "int \<times> int"
type_synonym move = "string \<times> int"
type_synonym state_hash = "(string \<times> int \<times> int) list"

text \<open>
  The dictionary \<open>self.vehicles\<close> is an association list in insertion order (Python
  dictionaries iterate in insertion order, and the order decides the order of the moves).
  Assigning to a key that is present replaces the value in place, assigning to a new key
  appends: this is \<open>AList.update\<close>.
\<close>

record board =
  size_b :: int
  vehicles :: "(string \<times> vehicle) list"

definition Board :: "int \<Rightarrow> board" where
  "Board n = \<lparr>size_b = n, vehicles = []\<rparr>"

definition occupies :: "vehicle \<Rightarrow> cell set" where
  "occupies v =
     (\<lambda>i. if orientation v = ''horizontal'' then (row v, col v + i) else (row v + i, col v))
       ` {0..<length_v v}"

definition copy_v :: "vehicle \<Rightarrow> vehicle" where
  "copy_v v = \<lparr>id_v = id_v v, orientation = orientation v, length_v = length_v v,
               row = row v, col = col v\<rparr>"

text \<open>The first loop of \<open>add_vehicle\<close>: leave at the first existing vehicle that overlaps.\<close>

primrec overlap_detected :: "cell set \<Rightarrow> vehicle list \<Rightarrow> bool" where
  "overlap_detected new_cells [] = False"
| "overlap_detected new_cells (v # vs) =
     (if \<not> (new_cells \<inter> occupies v = {}) then True else overlap_detected new_cells vs)"

text \<open>
  The second loop runs over a set and leaves at any cell out of bounds; its outcome does
  not depend on the order, so it is the existence of such a cell.
\<close>

definition out_of_bounds :: "int \<Rightarrow> cell set \<Rightarrow> bool" where
  "out_of_bounds n new_cells = (\<exists>(r, c) \<in> new_cells. r < 0 \<or> r \<ge> n \<or> c < 0 \<or> c \<ge> n)"

text \<open>\<open>add_vehicle\<close> mutates the board and returns a flag: the model returns both.\<close>

definition add_vehicle :: "board \<Rightarrow> vehicle \<Rightarrow> bool \<times> board" where
  "add_vehicle b vehicle =
     (let new_cells = occupies vehicle in
      if overlap_detected new_cells (map snd (vehicles b)) then (False, b)
      else if out_of_bounds (size_b b) new_cells then (False, b)
      else (True, b\<lparr>vehicles := AList.update (id_v vehicle) vehicle (vehicles b)\<rparr>))"

text \<open>
  The keys are sorted as Python sorts strings (lexicographically by character code);
  each key comes from the dictionary itself, so its lookup cannot fail.
\<close>

definition get_state_hash :: "board \<Rightarrow> state_hash" where
  "get_state_hash b =
     List.map_filter
       (\<lambda>v_id. map_option (\<lambda>v. (v_id, row v, col v)) (map_of (vehicles b) v_id))
       (sort (map fst (vehicles b)))"

definition is_solved :: "board \<Rightarrow> bool" where
  "is_solved b =
     (case map_of (vehicles b) ''target'' of
        None \<Rightarrow> False
      | Some target \<Rightarrow> col target + length_v target = size_b b)"

definition get_occupied_cells :: "board \<Rightarrow> cell set" where
  "get_occupied_cells b = fold (\<lambda>v occupied. occupied \<union> occupies v) (map snd (vehicles b)) {}"

text \<open>
  The inner loops of \<open>get_possible_moves\<close> run once per \<open>i\<close> in \<open>range(length)\<close>, on a
  cell that does not depend on \<open>i\<close>, and leave at the first block.
\<close>

definition front_cell :: "vehicle \<Rightarrow> int \<Rightarrow> cell" where
  "front_cell vehicle steps =
     (if orientation vehicle = ''horizontal''
      then (row vehicle, col vehicle + length_v vehicle - 1 + steps)
      else (row vehicle + length_v vehicle - 1 + steps, col vehicle))"

definition back_cell :: "vehicle \<Rightarrow> int \<Rightarrow> cell" where
  "back_cell vehicle steps =
     (if orientation vehicle = ''horizontal''
      then (row vehicle, col vehicle - steps)
      else (row vehicle - steps, col vehicle))"

primrec forward_blocked :: "int \<Rightarrow> vehicle \<Rightarrow> cell set \<Rightarrow> cell set \<Rightarrow> int \<Rightarrow> int list \<Rightarrow> bool" where
  "forward_blocked n vehicle occupied current_my_cells steps [] = False"
| "forward_blocked n vehicle occupied current_my_cells steps (i # rest) =
     (case front_cell vehicle steps of (r, c) \<Rightarrow>
        if r \<ge> n \<or> c \<ge> n then True
        else if (r, c) \<in> occupied \<and> (r, c) \<notin> current_my_cells then True
        else forward_blocked n vehicle occupied current_my_cells steps rest)"

primrec backward_blocked :: "vehicle \<Rightarrow> cell set \<Rightarrow> cell set \<Rightarrow> int \<Rightarrow> int list \<Rightarrow> bool" where
  "backward_blocked vehicle occupied current_my_cells steps [] = False"
| "backward_blocked vehicle occupied current_my_cells steps (i # rest) =
     (case back_cell vehicle steps of (r, c) \<Rightarrow>
        if r < 0 \<or> c < 0 then True
        else if (r, c) \<in> occupied \<and> (r, c) \<notin> current_my_cells then True
        else backward_blocked vehicle occupied current_my_cells steps rest)"

text \<open>The loops over \<open>steps in range(1, size)\<close>, which stop at the first blocked step.\<close>

primrec forward_moves ::
  "int \<Rightarrow> string \<Rightarrow> vehicle \<Rightarrow> cell set \<Rightarrow> cell set \<Rightarrow> int list \<Rightarrow> move list" where
  "forward_moves n v_id vehicle occupied current_my_cells [] = []"
| "forward_moves n v_id vehicle occupied current_my_cells (steps # rest) =
     (if forward_blocked n vehicle occupied current_my_cells steps [0..length_v vehicle - 1]
      then []
      else (v_id, steps) # forward_moves n v_id vehicle occupied current_my_cells rest)"

primrec backward_moves ::
  "string \<Rightarrow> vehicle \<Rightarrow> cell set \<Rightarrow> cell set \<Rightarrow> int list \<Rightarrow> move list" where
  "backward_moves v_id vehicle occupied current_my_cells [] = []"
| "backward_moves v_id vehicle occupied current_my_cells (steps # rest) =
     (if backward_blocked vehicle occupied current_my_cells steps [0..length_v vehicle - 1]
      then []
      else (v_id, - steps) # backward_moves v_id vehicle occupied current_my_cells rest)"

definition vehicle_moves :: "board \<Rightarrow> cell set \<Rightarrow> string \<times> vehicle \<Rightarrow> move list" where
  "vehicle_moves b occupied item =
     (case item of (v_id, vehicle) \<Rightarrow>
        let current_my_cells = occupies vehicle in
        forward_moves (size_b b) v_id vehicle occupied current_my_cells [1..size_b b - 1]
        @ backward_moves v_id vehicle occupied current_my_cells [1..size_b b - 1])"

definition get_possible_moves :: "board \<Rightarrow> move list" where
  "get_possible_moves b =
     (let occupied = get_occupied_cells b in
      concat (map (vehicle_moves b occupied) (vehicles b)))"

text \<open>
  \<open>move\<close> copies every vehicle into a fresh board through \<open>add_vehicle\<close>, whose returned
  flag it ignores: a vehicle that \<open>add_vehicle\<close> rejects is not in the new board.
\<close>

definition shifted :: "vehicle \<Rightarrow> int \<Rightarrow> vehicle" where
  "shifted new_v steps =
     (if orientation new_v = ''horizontal''
      then new_v\<lparr>col := col new_v + steps\<rparr>
      else new_v\<lparr>row := row new_v + steps\<rparr>)"

definition move_step :: "string \<Rightarrow> int \<Rightarrow> string \<times> vehicle \<Rightarrow> board \<Rightarrow> board" where
  "move_step v_id steps item new_board =
     (case item of (vid, v) \<Rightarrow>
        let new_v = copy_v v;
            new_v = (if vid = v_id then shifted new_v steps else new_v)
        in snd (add_vehicle new_board new_v))"

definition move :: "board \<Rightarrow> string \<Rightarrow> int \<Rightarrow> board" where
  "move b v_id steps = fold (move_step v_id steps) (vehicles b) (Board (size_b b))"

section \<open>The breadth-first search (generator/solver.py)\<close>

type_synonym entry = "board \<times> int \<times> move list"
type_synonym result = "bool \<times> int \<times> move list"

definition MAX_DEPTH :: int where
  "MAX_DEPTH = 100"

text \<open>
  The loop over the moves of the dequeued board. It either returns from \<open>solve_board\<close>
  (\<open>Inl\<close>, the returned triple) or runs to its end (\<open>Inr\<close>, the visited set and the queue
  as the loop leaves them).
\<close>

fun expand ::
  "board \<Rightarrow> int \<Rightarrow> move list \<Rightarrow> move list \<Rightarrow> state_hash set \<Rightarrow> entry list
     \<Rightarrow> result + (state_hash set \<times> entry list)" where
  "expand current_board moves path [] visited queue = Inr (visited, queue)"
| "expand current_board moves path ((v_id, steps) # possible_moves) visited queue =
     (let next_board = move current_board v_id steps;
          next_hash = get_state_hash next_board
      in if next_hash \<notin> visited then
           let new_path = path @ [(v_id, steps)]
           in if is_solved next_board then Inl (True, moves + 1, new_path)
              else expand current_board moves path possible_moves
                     (insert next_hash visited)
                     (queue @ [(next_board, moves + 1, new_path)])
         else expand current_board moves path possible_moves visited queue)"

text \<open>
  The \<open>while queue\<close> loop. It terminates on every input: an entry at depth \<open>MAX_DEPTH\<close>
  or more is dropped, and an expanded entry is replaced by finitely many entries one
  level deeper, so the multiset of the remaining depths \<open>MAX_DEPTH - moves\<close> decreases.
\<close>

definition weight :: "entry \<Rightarrow> nat" where
  "weight e = (case e of (b, moves, path) \<Rightarrow> Suc (nat (MAX_DEPTH - moves)))"

function bfs :: "entry list \<Rightarrow> state_hash set \<Rightarrow> result" where
  "bfs [] visited = (False, 0, [])"
| "bfs ((current_board, moves, path) # queue) visited =
     (if moves \<ge> MAX_DEPTH then bfs queue visited
      else case expand current_board moves path (get_possible_moves current_board)
                  visited queue of
             Inl r \<Rightarrow> r
           | Inr (visited', queue') \<Rightarrow> bfs queue' visited')"
  by pat_completeness auto
termination
proof (relation "inv_image (mult {(x, y). x < y}) (\<lambda>(q, vis). mset (map weight q))")
  show "wf (inv_image (mult {(x :: nat, y). x < y}) (\<lambda>(q, vis). mset (map weight q)))"
    by (intro wf_inv_image wf_mult) (simp add: wf)
next
  fix current_board :: board and moves :: int and path :: "move list"
    and queue :: "entry list" and visited :: "state_hash set"
  assume "moves \<ge> MAX_DEPTH"
  have "(mset (map weight queue) + {#}, mset (map weight queue) + {#weight (current_board, moves, path)#})
          \<in> mult {(x, y). x < y}"
    by (rule one_step_implies_mult) auto
  then show "((queue, visited), ((current_board, moves, path) # queue, visited))
        \<in> inv_image (mult {(x, y). x < y}) (\<lambda>(q, vis). mset (map weight q))"
    by simp
next
  fix current_board :: board and moves :: int and path :: "move list"
    and queue :: "entry list" and visited :: "state_hash set"
    and x2 :: "state_hash set \<times> entry list" and visited' queue'
  assume small: "\<not> MAX_DEPTH \<le> moves"
    and ex: "expand current_board moves path (get_possible_moves current_board) visited queue = Inr x2"
    and x2: "(visited', queue') = x2"
  have grow: "\<exists>new. q' = q @ new \<and> (\<forall>e \<in> set new. fst (snd e) = moves + 1)"
    if "expand current_board moves path ms vis q = Inr (vis', q')" for ms vis q vis' q'
    using that
  proof (induction ms arbitrary: vis q)
    case Nil
    then show ?case by simp
  next
    case (Cons m ms)
    obtain v_id steps where m: "m = (v_id, steps)" by (cases m)
    show ?case
    proof (cases "get_state_hash (move current_board v_id steps) \<in> vis")
      case True
      with Cons.prems m
      have "expand current_board moves path ms vis q = Inr (vis', q')" by simp
      from Cons.IH [OF this] show ?thesis .
    next
      case False
      with Cons.prems m
      have "expand current_board moves path ms
              (insert (get_state_hash (move current_board v_id steps)) vis)
              (q @ [(move current_board v_id steps, moves + 1, path @ [(v_id, steps)])])
            = Inr (vis', q')"
        by (simp add: Let_def split: if_splits)
      from Cons.IH [OF this] obtain new where
        "q' = (q @ [(move current_board v_id steps, moves + 1, path @ [(v_id, steps)])]) @ new"
        "\<forall>e \<in> set new. fst (snd e) = moves + 1"
        by blast
      then have "q' = q @ ((move current_board v_id steps, moves + 1, path @ [(v_id, steps)]) # new)
          \<and> (\<forall>e \<in> set ((move current_board v_id steps, moves + 1, path @ [(v_id, steps)]) # new).
                fst (snd e) = moves + 1)"
        by simp
      then show ?thesis by blast
    qed
  qed
  from ex x2 have "expand current_board moves path (get_possible_moves current_board) visited queue
      = Inr (visited', queue')" by simp
  from grow [OF this] obtain new where
    q': "queue' = queue @ new" and new: "\<forall>e \<in> set new. fst (snd e) = moves + 1"
    by blast
  have lt: "\<forall>k \<in># mset (map weight new). \<exists>j \<in># {#weight (current_board, moves, path)#}. (k, j) \<in> {(x, y). x < y}"
    using new small by (auto simp: weight_def)
  have "(mset (map weight queue) + mset (map weight new),
         mset (map weight queue) + {#weight (current_board, moves, path)#}) \<in> mult {(x, y). x < y}"
    by (rule one_step_implies_mult) (use lt in auto)
  then show "((queue', visited'), ((current_board, moves, path) # queue, visited))
        \<in> inv_image (mult {(x, y). x < y}) (\<lambda>(q, vis). mset (map weight q))"
    by (simp add: q')
qed

declare bfs.simps [simp del]

definition solve_board :: "board \<Rightarrow> result" where
  "solve_board b =
     (let start_hash = get_state_hash b
      in if is_solved b then (True, 0, [])
         else bfs [(b, 0, [])] {start_hash})"

section \<open>Notions used to state the properties\<close>

definition in_bounds :: "int \<Rightarrow> cell \<Rightarrow> bool" where
  "in_bounds n c = (0 \<le> fst c \<and> fst c < n \<and> 0 \<le> snd c \<and> snd c < n)"

text \<open>
  The two invariants of the board: every occupied cell lies within the grid, and the
  vehicles stored under two different keys share no cell.
\<close>

definition cells_ok :: "board \<Rightarrow> bool" where
  "cells_ok b =
     (\<forall>(k, v) \<in> set (vehicles b).
        (\<forall>c \<in> occupies v. in_bounds (size_b b) c)
        \<and> (\<forall>(k', v') \<in> set (vehicles b). k' \<noteq> k \<longrightarrow> occupies v \<inter> occupies v' = {}))"

text \<open>
  A valid board is a dictionary (no key twice) that stores every vehicle under its own
  id, as \<open>add_vehicle\<close> does, and satisfies the two invariants.
\<close>

definition valid_board :: "board \<Rightarrow> bool" where
  "valid_board b =
     (distinct (map fst (vehicles b))
      \<and> (\<forall>(k, v) \<in> set (vehicles b). id_v v = k)
      \<and> cells_ok b)"

text \<open>
  The slide of the vehicle \<open>v\<close>, stored under \<open>k\<close>, by \<open>s\<close> cells is blocked when it
  puts a cell of the vehicle outside the grid or on a cell of a vehicle stored under
  another key.
\<close>

definition slide_blocked :: "board \<Rightarrow> string \<Rightarrow> vehicle \<Rightarrow> int \<Rightarrow> bool" where
  "slide_blocked b k v s =
     (\<exists>c \<in> occupies (shifted v s).
        \<not> in_bounds (size_b b) c
        \<or> (\<exists>(k', v') \<in> set (vehicles b). k' \<noteq> k \<and> c \<in> occupies v'))"

text \<open>Replaying a path with \<open>move\<close>, and the paths made of moves that
  \<open>get_possible_moves\<close> produces for the board they are applied to.\<close>

fun replay :: "board \<Rightarrow> move list \<Rightarrow> board" where
  "replay b [] = b"
| "replay b ((v_id, steps) # ms) = replay (move b v_id steps) ms"

fun legal_path :: "board \<Rightarrow> move list \<Rightarrow> bool" where
  "legal_path b [] = True"
| "legal_path b ((v_id, steps) # ms) =
     ((v_id, steps) \<in> set (get_possible_moves b) \<and> legal_path (move b v_id steps) ms)"

subsection \<open>Auxiliary notions of the proofs\<close>

text \<open>
  A vehicle along its own axis: \<open>anchor\<close> is the coordinate that a move changes,
  \<open>cross\<close> the one it keeps, and \<open>cell_at v p\<close> the cell of the lane of \<open>v\<close> at
  position \<open>p\<close>. A cell is free for the key \<open>k\<close> when it is within the grid and no
  vehicle under another key occupies it.
\<close>

definition anchor :: "vehicle \<Rightarrow> int" where
  "anchor v = (if orientation v = ''horizontal'' then col v else row v)"

definition cross :: "vehicle \<Rightarrow> int" where
  "cross v = (if orientation v = ''horizontal'' then row v else col v)"

definition cell_at :: "vehicle \<Rightarrow> int \<Rightarrow> cell" where
  "cell_at v p = (if orientation v = ''horizontal'' then (row v, p) else (p, col v))"

definition free_cell :: "board \<Rightarrow> string \<Rightarrow> cell \<Rightarrow> bool" where
  "free_cell b k c =
     (in_bounds (size_b b) c \<and> (\<forall>(k', v') \<in> set (vehicles b). k' \<noteq> k \<longrightarrow> c \<notin> occupies v'))"

text \<open>The outcome of the two inner loops of \<open>get_possible_moves\<close> for one step count.\<close>

definition fwd_blocked :: "board \<Rightarrow> vehicle \<Rightarrow> int \<Rightarrow> bool" where
  "fwd_blocked b v j =
     forward_blocked (size_b b) v (get_occupied_cells b) (occupies v) j [0..length_v v - 1]"

definition bwd_blocked :: "board \<Rightarrow> vehicle \<Rightarrow> int \<Rightarrow> bool" where
  "bwd_blocked b v j =
     backward_blocked v (get_occupied_cells b) (occupies v) j [0..length_v v - 1]"

text \<open>
  The mapping that a move is meant to produce, and the loop of \<open>move\<close> seen as placing a
  list of vehicles, one after the other, on an empty board.
\<close>

definition moved :: "string \<Rightarrow> int \<Rightarrow> string \<times> vehicle \<Rightarrow> string \<times> vehicle" where
  "moved k s item = (case item of (k', v') \<Rightarrow> (k', if k' = k then shifted v' s else v'))"

definition build :: "int \<Rightarrow> vehicle list \<Rightarrow> board" where
  "build n vs = fold (\<lambda>v nb. snd (add_vehicle nb v)) vs (Board n)"

text \<open>
  The queue entry that the search appends for a move of the dequeued board; the
  invariant that ties the path of an entry to its board and its depth; boards with no
  target under any key or id.
\<close>

definition child :: "board \<Rightarrow> int \<Rightarrow> move list \<Rightarrow> move \<Rightarrow> entry" where
  "child cur m p mv = (move cur (fst mv) (snd mv), m + 1, p @ [mv])"

definition path_ok :: "board \<Rightarrow> entry \<Rightarrow> bool" where
  "path_ok root e = (case e of (bd, m, p) \<Rightarrow> int (length p) = m \<and> replay root p = bd)"

text \<open>The same for legality: the path of an entry is a legal path from the root to its board.\<close>

definition legal_ok :: "board \<Rightarrow> entry \<Rightarrow> bool" where
  "legal_ok root e = (case e of (bd, m, p) \<Rightarrow> legal_path root p \<and> replay root p = bd)"

definition no_target :: "board \<Rightarrow> bool" where
  "no_target b = (\<forall>(k, v) \<in> set (vehicles b). k \<noteq> ''target'' \<and> id_v v \<noteq> ''target'')"

text \<open>
  What no move changes (size, keys in order, ids, orientations, lengths); the boards
  within \<open>d\<close> legal moves of a root, and the boards reachable from it.
\<close>

definition shape :: "board \<Rightarrow> int \<times> (string \<times> string \<times> string \<times> int) list" where
  "shape b = (size_b b, map (\<lambda>(k, v). (k, id_v v, orientation v, length_v v)) (vehicles b))"

definition within :: "board \<Rightarrow> int \<Rightarrow> board \<Rightarrow> bool" where
  "within root d x = (\<exists>ms. legal_path root ms \<and> int (length ms) \<le> d \<and> replay root ms = x)"

definition reachable :: "board \<Rightarrow> board \<Rightarrow> bool" where
  "reachable root x = (\<exists>ms. legal_path root ms \<and> replay root ms = x)"

text \<open>
  The invariant of the queue, split as \<open>A @ B\<close>: \<open>A\<close> holds the entries of the current
  depth \<open>d\<close> still to expand and \<open>B\<close> the entries of depth \<open>d + 1\<close> found so far. Every
  board within \<open>d\<close> moves of the root is visited and, unless it still waits in \<open>A\<close>, so
  are all its successors; every visited reachable board is unsolved and lies within \<open>d\<close>
  moves or waits in \<open>B\<close>. Once an entry at the depth ceiling is dropped, every remaining
  entry is at the ceiling too and the search returns nothing.
\<close>

definition level_inv :: "board \<Rightarrow> int \<Rightarrow> entry list \<Rightarrow> entry list \<Rightarrow> state_hash set \<Rightarrow> bool" where
  "level_inv root d A B vis =
     (0 \<le> d
      \<and> (\<forall>e \<in> set A. fst (snd e) = d \<and> within root d (fst e))
      \<and> (\<forall>e \<in> set B. fst (snd e) = d + 1 \<and> within root (d + 1) (fst e))
      \<and> (\<forall>x. within root d x \<longrightarrow>
             get_state_hash x \<in> vis
             \<and> (x \<in> fst ` set A
                \<or> (\<forall>mv \<in> set (get_possible_moves x).
                      get_state_hash (move x (fst mv) (snd mv)) \<in> vis)))
      \<and> (\<forall>x. reachable root x \<and> get_state_hash x \<in> vis \<longrightarrow>
             \<not> is_solved x \<and> (within root d x \<or> x \<in> fst ` set B)))"

definition search_inv :: "board \<Rightarrow> entry list \<Rightarrow> state_hash set \<Rightarrow> bool" where
  "search_inv root q vis =
     ((\<exists>d A B. q = A @ B \<and> level_inv root d A B vis)
      \<or> (\<forall>e \<in> set q. MAX_DEPTH \<le> fst (snd e)))"

subsection \<open>Example boards\<close>

definition target_at :: "int \<Rightarrow> vehicle" where
  "target_at c = \<lparr>id_v = ''target'', orientation = ''horizontal'', length_v = 2, row = 2, col = c\<rparr>"

definition car_1 :: vehicle where
  "car_1 = \<lparr>id_v = ''car_1'', orientation = ''vertical'', length_v = 2, row = 2, col = 2\<rparr>"

definition vertical_target :: vehicle where
  "vertical_target = \<lparr>id_v = ''target'', orientation = ''vertical'', length_v = 3, row = 0, col = 3\<rparr>"

text \<open>Scenario A: the 6x6 board with only the target at row 2, columns 0 and 1.\<close>

definition board_A :: board where
  "board_A = \<lparr>size_b = 6, vehicles = [(''target'', target_at 0)]\<rparr>"

text \<open>The same with a vertical car on row 2 and 3 of column 2, right in front of the target.\<close>

definition board_blocked :: board where
  "board_blocked = \<lparr>size_b = 6, vehicles = [(''target'', target_at 0), (''car_1'', car_1)]\<rparr>"

definition board_no_target :: board where
  "board_no_target = \<lparr>size_b = 6, vehicles = [(''car_1'', car_1)]\<rparr>"

definition board_vertical_target :: board where
  "board_vertical_target = \<lparr>size_b = 6, vehicles = [(''target'', vertical_target)]\<rparr>"

section \<open>Placing a vehicle\<close>

lemma overlap_detected_iff:
  "overlap_detected cs vs = (\<exists>v \<in> set vs. cs \<inter> occupies v \<noteq> {})"
  by (induction vs) auto

text \<open>
  C8. \<open>add_vehicle\<close> is a total function (it never raises). When a cell of the new vehicle
  lies in an existing vehicle or outside the grid it returns \<open>False\<close> with the board
  unchanged; otherwise it returns \<open>True\<close> and the mapping is the old one with the
  vehicle stored under its id.
\<close>

theorem add_vehicle_spec:
  "add_vehicle b v =
     (if (\<exists>(k, u) \<in> set (vehicles b). occupies v \<inter> occupies u \<noteq> {})
         \<or> (\<exists>(r, c) \<in> occupies v. \<not> (0 \<le> r \<and> r < size_b b \<and> 0 \<le> c \<and> c < size_b b))
      then (False, b)
      else (True, b\<lparr>vehicles := AList.update (id_v v) v (vehicles b)\<rparr>))
   \<and> (fst (add_vehicle b v) \<longrightarrow>
        map_of (vehicles (snd (add_vehicle b v))) = (map_of (vehicles b))(id_v v \<mapsto> v)
        \<and> size_b (snd (add_vehicle b v)) = size_b b)"
proof -
  have ov: "overlap_detected (occupies v) (map snd (vehicles b)) =
            (\<exists>(k, u) \<in> set (vehicles b). occupies v \<inter> occupies u \<noteq> {})"
    by (force simp: overlap_detected_iff)
  have ob: "out_of_bounds (size_b b) (occupies v) =
            (\<exists>(r, c) \<in> occupies v. \<not> (0 \<le> r \<and> r < size_b b \<and> 0 \<le> c \<and> c < size_b b))"
    unfolding out_of_bounds_def by (auto simp: not_le not_less)
  have eq: "add_vehicle b v =
     (if (\<exists>(k, u) \<in> set (vehicles b). occupies v \<inter> occupies u \<noteq> {})
         \<or> (\<exists>(r, c) \<in> occupies v. \<not> (0 \<le> r \<and> r < size_b b \<and> 0 \<le> c \<and> c < size_b b))
      then (False, b)
      else (True, b\<lparr>vehicles := AList.update (id_v v) v (vehicles b)\<rparr>))"
    unfolding add_vehicle_def Let_def ov ob by simp
  have upd: "map_of (AList.update (id_v v) v (vehicles b)) = (map_of (vehicles b))(id_v v \<mapsto> v)"
    by (rule ext) (simp add: update_conv)
  show ?thesis
    unfolding eq by (simp add: upd)
qed

theorem add_vehicle_spec_witness:
  "add_vehicle board_A car_1 = (True, board_blocked)
   \<and> add_vehicle board_blocked (target_at 1) = (False, board_blocked)
   \<and> add_vehicle board_A (target_at 5) = (False, board_A)"
proof -
  have 1: "\<not> ((\<exists>(k, u) \<in> set (vehicles board_A). occupies car_1 \<inter> occupies u \<noteq> {})
         \<or> (\<exists>(r, c) \<in> occupies car_1.
               \<not> (0 \<le> r \<and> r < size_b board_A \<and> 0 \<le> c \<and> c < size_b board_A)))"
    by code_simp
  have 2: "(\<exists>(k, u) \<in> set (vehicles board_blocked). occupies (target_at 1) \<inter> occupies u \<noteq> {})"
    by code_simp
  have 3: "(\<exists>(r, c) \<in> occupies (target_at 5).
               \<not> (0 \<le> r \<and> r < size_b board_A \<and> 0 \<le> c \<and> c < size_b board_A))"
    by code_simp
  have 4: "board_A\<lparr>vehicles := AList.update (id_v car_1) car_1 (vehicles board_A)\<rparr> = board_blocked"
    by code_simp
  show ?thesis
    using add_vehicle_spec [of board_A car_1] add_vehicle_spec [of board_blocked "target_at 1"]
      add_vehicle_spec [of board_A "target_at 5"] 1 2 3 4
    by presburger
qed

section \<open>The solved test\<close>

text \<open>
  C10. When the mapping has a vehicle under the key \<open>''target''\<close>, \<open>is_solved\<close> is true
  exactly when its column plus its length is the board size; the orientation and the
  length of that vehicle play no part.
\<close>

theorem is_solved_target:
  "map_of (vehicles b) ''target'' = Some t \<Longrightarrow>
     is_solved b = (col t + length_v t = size_b b)"
  by (simp add: is_solved_def)

theorem is_solved_target_witness:
  "map_of (vehicles board_vertical_target) ''target'' = Some vertical_target
   \<and> orientation vertical_target = ''vertical''
   \<and> is_solved board_vertical_target"
proof -
  have h: "map_of (vehicles board_vertical_target) ''target'' = Some vertical_target"
    by (simp add: board_vertical_target_def)
  have "col vertical_target + length_v vertical_target = size_b board_vertical_target"
    by (simp add: board_vertical_target_def vertical_target_def)
  with is_solved_target [OF h] h show ?thesis
    by (simp add: vertical_target_def)
qed

section \<open>Enumerating the moves\<close>

lemma fold_union_occupies:
  "fold (\<lambda>v occupied. occupied \<union> occupies v) vs acc = acc \<union> (\<Union>v \<in> set vs. occupies v)"
  by (induction vs arbitrary: acc) auto

lemma get_occupied_cells_iff:
  "c \<in> get_occupied_cells b \<longleftrightarrow> (\<exists>(k, v) \<in> set (vehicles b). c \<in> occupies v)"
  by (force simp: get_occupied_cells_def fold_union_occupies)

lemma forward_blocked_iff:
  "forward_blocked n v occ mine s js =
     (js \<noteq> [] \<and> ((fst (front_cell v s) \<ge> n \<or> snd (front_cell v s) \<ge> n)
                  \<or> (front_cell v s \<in> occ \<and> front_cell v s \<notin> mine)))"
  by (induction js) (auto split: prod.splits)

lemma backward_blocked_iff:
  "backward_blocked v occ mine s js =
     (js \<noteq> [] \<and> ((fst (back_cell v s) < 0 \<or> snd (back_cell v s) < 0)
                  \<or> (back_cell v s \<in> occ \<and> back_cell v s \<notin> mine)))"
  by (induction js) (auto split: prod.splits)

lemma forward_moves_iff:
  "(k', s) \<in> set (forward_moves n k v occ mine [a..m]) \<longleftrightarrow>
     k' = k \<and> a \<le> s \<and> s \<le> m
     \<and> (\<forall>j. a \<le> j \<and> j \<le> s \<longrightarrow> \<not> forward_blocked n v occ mine j [0..length_v v - 1])"
proof (induction a m rule: upto.induct)
  case (1 i j)
  show ?case
  proof (cases "i \<le> j")
    case False
    then show ?thesis by simp
  next
    case True
    note IH = "1.IH" [OF True]
    show ?thesis
    proof (cases "forward_blocked n v occ mine i [0..length_v v - 1]")
      case True
      with \<open>i \<le> j\<close> show ?thesis
        by (auto simp: upto_rec1 [of i j])
    next
      case False
      have "(\<forall>j'. i \<le> j' \<and> j' \<le> s \<longrightarrow> \<not> forward_blocked n v occ mine j' [0..length_v v - 1])
          \<longleftrightarrow> (\<forall>j'. i + 1 \<le> j' \<and> j' \<le> s \<longrightarrow> \<not> forward_blocked n v occ mine j' [0..length_v v - 1])"
        using False by (metis add1_zle_eq order_le_less)
      with False \<open>i \<le> j\<close> IH show ?thesis
        by (auto simp: upto_rec1 [of i j])
    qed
  qed
qed

lemma backward_moves_iff:
  "(k', s) \<in> set (backward_moves k v occ mine [a..m]) \<longleftrightarrow>
     k' = k \<and> a \<le> - s \<and> - s \<le> m
     \<and> (\<forall>j. a \<le> j \<and> j \<le> - s \<longrightarrow> \<not> backward_blocked v occ mine j [0..length_v v - 1])"
proof (induction a m rule: upto.induct)
  case (1 i j)
  show ?case
  proof (cases "i \<le> j")
    case False
    then show ?thesis by simp
  next
    case True
    note IH = "1.IH" [OF True]
    show ?thesis
    proof (cases "backward_blocked v occ mine i [0..length_v v - 1]")
      case True
      with \<open>i \<le> j\<close> show ?thesis
        by (auto simp: upto_rec1 [of i j])
    next
      case False
      have "(\<forall>j'. i \<le> j' \<and> j' \<le> - s \<longrightarrow> \<not> backward_blocked v occ mine j' [0..length_v v - 1])
          \<longleftrightarrow> (\<forall>j'. i + 1 \<le> j' \<and> j' \<le> - s \<longrightarrow> \<not> backward_blocked v occ mine j' [0..length_v v - 1])"
        using False by (metis add1_zle_eq order_le_less)
      with False \<open>i \<le> j\<close> IH show ?thesis
        by (auto simp: upto_rec1 [of i j])
    qed
  qed
qed

lemma get_possible_moves_iff:
  "(k, s) \<in> set (get_possible_moves b) \<longleftrightarrow>
     (\<exists>v. (k, v) \<in> set (vehicles b)
        \<and> ((1 \<le> s \<and> s \<le> size_b b - 1 \<and> (\<forall>j. 1 \<le> j \<and> j \<le> s \<longrightarrow> \<not> fwd_blocked b v j))
           \<or> (1 \<le> - s \<and> - s \<le> size_b b - 1 \<and> (\<forall>j. 1 \<le> j \<and> j \<le> - s \<longrightarrow> \<not> bwd_blocked b v j))))"
  unfolding get_possible_moves_def Let_def vehicle_moves_def fwd_blocked_def bwd_blocked_def
  by (auto simp: forward_moves_iff backward_moves_iff)

lemma occupies_iff:
  "c \<in> occupies v \<longleftrightarrow> (\<exists>p. anchor v \<le> p \<and> p < anchor v + length_v v \<and> c = cell_at v p)"
proof
  assume "c \<in> occupies v"
  then obtain i where "i \<in> {0..<length_v v}"
    and c: "c = (if orientation v = ''horizontal'' then (row v, col v + i) else (row v + i, col v))"
    unfolding occupies_def by blast
  then have i: "0 \<le> i" "i < length_v v" by simp_all
  with c have "anchor v \<le> anchor v + i \<and> anchor v + i < anchor v + length_v v \<and> c = cell_at v (anchor v + i)"
    by (simp add: anchor_def cell_at_def)
  then show "\<exists>p. anchor v \<le> p \<and> p < anchor v + length_v v \<and> c = cell_at v p" by blast
next
  assume "\<exists>p. anchor v \<le> p \<and> p < anchor v + length_v v \<and> c = cell_at v p"
  then obtain p where p: "anchor v \<le> p" "p < anchor v + length_v v" "c = cell_at v p" by blast
  then have "p - anchor v \<in> {0..<length_v v}" by simp
  moreover have "c = (if orientation v = ''horizontal'' then (row v, col v + (p - anchor v))
                      else (row v + (p - anchor v), col v))"
    using p by (simp add: anchor_def cell_at_def)
  ultimately show "c \<in> occupies v"
    unfolding occupies_def by (rule image_eqI [rotated])
qed

lemma cell_at_eq [simp]: "cell_at v p = cell_at v q \<longleftrightarrow> p = q"
  by (simp add: cell_at_def)

lemma in_bounds_cell_at:
  "in_bounds n (cell_at v p) \<longleftrightarrow> 0 \<le> p \<and> p < n \<and> 0 \<le> cross v \<and> cross v < n"
  by (auto simp: in_bounds_def cell_at_def cross_def)

lemma front_cell_at: "front_cell v s = cell_at v (anchor v + length_v v - 1 + s)"
  by (simp add: front_cell_def cell_at_def anchor_def)

lemma back_cell_at: "back_cell v s = cell_at v (anchor v - s)"
  by (simp add: back_cell_def cell_at_def anchor_def)

lemma fst_snd_cell_at:
  "(fst (cell_at v p) \<ge> n \<or> snd (cell_at v p) \<ge> n) \<longleftrightarrow> (p \<ge> n \<or> cross v \<ge> n)"
  "(fst (cell_at v p) < 0 \<or> snd (cell_at v p) < 0) \<longleftrightarrow> (p < 0 \<or> cross v < 0)"
  by (auto simp: cell_at_def cross_def)

lemma shifted_fields [simp]:
  "id_v (shifted v s) = id_v v"
  "orientation (shifted v s) = orientation v"
  "length_v (shifted v s) = length_v v"
  "anchor (shifted v s) = anchor v + s"
  "cross (shifted v s) = cross v"
  by (simp_all add: shifted_def anchor_def cross_def)

lemma cell_at_shifted [simp]: "cell_at (shifted v s) p = cell_at v p"
  by (simp add: shifted_def cell_at_def)

lemma occupies_shifted_iff:
  "c \<in> occupies (shifted v s) \<longleftrightarrow>
     (\<exists>p. anchor v + s \<le> p \<and> p < anchor v + s + length_v v \<and> c = cell_at v p)"
  by (simp add: occupies_iff)

lemma not_slide_blocked_iff:
  "\<not> slide_blocked b k v s \<longleftrightarrow> (\<forall>c \<in> occupies (shifted v s). free_cell b k c)"
  unfolding slide_blocked_def free_cell_def by auto

lemma copy_v_id [simp]: "copy_v v = v"
  by (simp add: copy_v_def)

text \<open>What validity gives for one vehicle of the board.\<close>

lemma valid_unique:
  "valid_board b \<Longrightarrow> (k, v) \<in> set (vehicles b) \<Longrightarrow> (k, v') \<in> set (vehicles b) \<Longrightarrow> v' = v"
  unfolding valid_board_def by (meson eq_key_imp_eq_value)

lemma valid_own_free:
  assumes "valid_board b" "(k, v) \<in> set (vehicles b)" "c \<in> occupies v"
  shows "free_cell b k c"
  using assms unfolding valid_board_def cells_ok_def free_cell_def by fastforce

lemma valid_geometry:
  assumes "valid_board b" "(k, v) \<in> set (vehicles b)" "1 \<le> length_v v"
  shows "0 \<le> anchor v" "anchor v + length_v v \<le> size_b b" "0 \<le> cross v" "cross v < size_b b"
proof -
  have a: "cell_at v (anchor v) \<in> occupies v" and z: "cell_at v (anchor v + length_v v - 1) \<in> occupies v"
    using assms(3) by (auto simp: occupies_iff)
  from valid_own_free [OF assms(1,2) a] valid_own_free [OF assms(1,2) z]
  show "0 \<le> anchor v" "anchor v + length_v v \<le> size_b b" "0 \<le> cross v" "cross v < size_b b"
    by (auto simp: free_cell_def in_bounds_cell_at)
qed

lemma fwd_blocked_free:
  assumes v: "valid_board b" "(k, v) \<in> set (vehicles b)" "1 \<le> length_v v" and j: "1 \<le> j"
  shows "fwd_blocked b v j \<longleftrightarrow> \<not> free_cell b k (cell_at v (anchor v + length_v v - 1 + j))"
proof -
  let ?p = "anchor v + length_v v - 1 + j"
  note g = valid_geometry [OF v]
  have mine: "cell_at v ?p \<notin> occupies v"
    using j by (auto simp: occupies_iff)
  have occ: "cell_at v ?p \<in> get_occupied_cells b \<longleftrightarrow>
        (\<exists>(k', v') \<in> set (vehicles b). k' \<noteq> k \<and> cell_at v ?p \<in> occupies v')"
    using mine valid_unique [OF v(1,2)] by (fastforce simp: get_occupied_cells_iff)
  have ne: "[0..length_v v - 1] \<noteq> []" using v(3) by simp
  have "fwd_blocked b v j \<longleftrightarrow> (?p \<ge> size_b b \<or> cross v \<ge> size_b b
          \<or> (\<exists>(k', v') \<in> set (vehicles b). k' \<noteq> k \<and> cell_at v ?p \<in> occupies v'))"
    unfolding fwd_blocked_def forward_blocked_iff front_cell_at fst_snd_cell_at
    using ne mine occ by simp
  also have "\<dots> \<longleftrightarrow> \<not> free_cell b k (cell_at v ?p)"
    unfolding free_cell_def in_bounds_cell_at using g j v(3) by auto
  finally show ?thesis .
qed

lemma bwd_blocked_free:
  assumes v: "valid_board b" "(k, v) \<in> set (vehicles b)" "1 \<le> length_v v" and j: "1 \<le> j"
  shows "bwd_blocked b v j \<longleftrightarrow> \<not> free_cell b k (cell_at v (anchor v - j))"
proof -
  let ?p = "anchor v - j"
  note g = valid_geometry [OF v]
  have mine: "cell_at v ?p \<notin> occupies v"
    using j by (auto simp: occupies_iff)
  have occ: "cell_at v ?p \<in> get_occupied_cells b \<longleftrightarrow>
        (\<exists>(k', v') \<in> set (vehicles b). k' \<noteq> k \<and> cell_at v ?p \<in> occupies v')"
    using mine valid_unique [OF v(1,2)] by (fastforce simp: get_occupied_cells_iff)
  have ne: "[0..length_v v - 1] \<noteq> []" using v(3) by simp
  have "bwd_blocked b v j \<longleftrightarrow> (?p < 0 \<or> cross v < 0
          \<or> (\<exists>(k', v') \<in> set (vehicles b). k' \<noteq> k \<and> cell_at v ?p \<in> occupies v'))"
    unfolding bwd_blocked_def backward_blocked_iff back_cell_at fst_snd_cell_at
    using ne mine occ by simp
  also have "\<dots> \<longleftrightarrow> \<not> free_cell b k (cell_at v ?p)"
    unfolding free_cell_def in_bounds_cell_at using g j v(3) by auto
  finally show ?thesis .
qed

lemma slide_free_iff:
  "\<not> slide_blocked b k v s \<longleftrightarrow>
     (\<forall>p. anchor v + s \<le> p \<and> p < anchor v + s + length_v v \<longrightarrow> free_cell b k (cell_at v p))"
  by (auto simp: not_slide_blocked_iff occupies_shifted_iff)

lemma forward_run:
  assumes v: "valid_board b" "(k, v) \<in> set (vehicles b)" "1 \<le> length_v v"
  shows "(\<forall>j. 1 \<le> j \<and> j \<le> s \<longrightarrow> \<not> fwd_blocked b v j)
     \<longleftrightarrow> (\<forall>j. 1 \<le> j \<and> j \<le> s \<longrightarrow> \<not> slide_blocked b k v j)"
proof
  assume L: "\<forall>j. 1 \<le> j \<and> j \<le> s \<longrightarrow> \<not> fwd_blocked b v j"
  show "\<forall>j. 1 \<le> j \<and> j \<le> s \<longrightarrow> \<not> slide_blocked b k v j"
  proof (intro allI impI)
    fix j assume j: "1 \<le> j \<and> j \<le> s"
    show "\<not> slide_blocked b k v j"
      unfolding slide_free_iff
    proof (intro allI impI)
      fix p assume p: "anchor v + j \<le> p \<and> p < anchor v + j + length_v v"
      show "free_cell b k (cell_at v p)"
      proof (cases "p < anchor v + length_v v")
        case True
        with p j have "cell_at v p \<in> occupies v" by (auto simp: occupies_iff)
        from valid_own_free [OF v(1,2) this] show ?thesis .
      next
        case False
        define j' where "j' = p - (anchor v + length_v v - 1)"
        have j': "1 \<le> j'" "j' \<le> s" using False p j by (simp_all add: j'_def)
        with L have "\<not> fwd_blocked b v j'" by blast
        with fwd_blocked_free [OF v j'(1)]
        have "free_cell b k (cell_at v (anchor v + length_v v - 1 + j'))" by simp
        then show ?thesis by (simp add: j'_def)
      qed
    qed
  qed
next
  assume R: "\<forall>j. 1 \<le> j \<and> j \<le> s \<longrightarrow> \<not> slide_blocked b k v j"
  show "\<forall>j. 1 \<le> j \<and> j \<le> s \<longrightarrow> \<not> fwd_blocked b v j"
  proof (intro allI impI)
    fix j assume j: "1 \<le> j \<and> j \<le> s"
    with R have "\<not> slide_blocked b k v j" by blast
    then have "free_cell b k (cell_at v (anchor v + length_v v - 1 + j))"
      unfolding slide_free_iff using v(3) by simp
    with fwd_blocked_free [OF v, of j] j show "\<not> fwd_blocked b v j" by simp
  qed
qed

lemma backward_run:
  assumes v: "valid_board b" "(k, v) \<in> set (vehicles b)" "1 \<le> length_v v"
  shows "(\<forall>j. 1 \<le> j \<and> j \<le> s \<longrightarrow> \<not> bwd_blocked b v j)
     \<longleftrightarrow> (\<forall>j. 1 \<le> j \<and> j \<le> s \<longrightarrow> \<not> slide_blocked b k v (- j))"
proof
  assume L: "\<forall>j. 1 \<le> j \<and> j \<le> s \<longrightarrow> \<not> bwd_blocked b v j"
  show "\<forall>j. 1 \<le> j \<and> j \<le> s \<longrightarrow> \<not> slide_blocked b k v (- j)"
  proof (intro allI impI)
    fix j assume j: "1 \<le> j \<and> j \<le> s"
    show "\<not> slide_blocked b k v (- j)"
      unfolding slide_free_iff
    proof (intro allI impI)
      fix p assume p: "anchor v + - j \<le> p \<and> p < anchor v + - j + length_v v"
      show "free_cell b k (cell_at v p)"
      proof (cases "anchor v \<le> p")
        case True
        with p j have "cell_at v p \<in> occupies v" by (auto simp: occupies_iff)
        from valid_own_free [OF v(1,2) this] show ?thesis .
      next
        case False
        define j' where "j' = anchor v - p"
        have j': "1 \<le> j'" "j' \<le> s" using False p j by (simp_all add: j'_def)
        with L have "\<not> bwd_blocked b v j'" by blast
        with bwd_blocked_free [OF v j'(1)]
        have "free_cell b k (cell_at v (anchor v - j'))" by simp
        then show ?thesis by (simp add: j'_def)
      qed
    qed
  qed
next
  assume R: "\<forall>j. 1 \<le> j \<and> j \<le> s \<longrightarrow> \<not> slide_blocked b k v (- j)"
  show "\<forall>j. 1 \<le> j \<and> j \<le> s \<longrightarrow> \<not> bwd_blocked b v j"
  proof (intro allI impI)
    fix j assume j: "1 \<le> j \<and> j \<le> s"
    with R have "\<not> slide_blocked b k v (- j)" by blast
    then have "free_cell b k (cell_at v (anchor v - j))"
      unfolding slide_free_iff using v(3) by simp
    with bwd_blocked_free [OF v, of j] j show "\<not> bwd_blocked b v j" by simp
  qed
qed

text \<open>A clear run never leaves the grid, so the bound of \<open>range(1, size)\<close> cuts nothing.\<close>

lemma forward_run_short:
  assumes v: "valid_board b" "(k, v) \<in> set (vehicles b)" "1 \<le> length_v v"
    and s: "1 \<le> s" "\<not> slide_blocked b k v s"
  shows "s \<le> size_b b - 1"
proof -
  from s(2) have "free_cell b k (cell_at v (anchor v + length_v v - 1 + s))"
    unfolding slide_free_iff using v(3) by simp
  then have "anchor v + length_v v - 1 + s < size_b b"
    by (simp add: free_cell_def in_bounds_cell_at)
  with valid_geometry(1) [OF v] v(3) show ?thesis by simp
qed

lemma backward_run_short:
  assumes v: "valid_board b" "(k, v) \<in> set (vehicles b)" "1 \<le> length_v v"
    and s: "1 \<le> s" "\<not> slide_blocked b k v (- s)"
  shows "s \<le> size_b b - 1"
proof -
  from s(2) have "free_cell b k (cell_at v (anchor v - s))"
    unfolding slide_free_iff using v(3) by simp
  then have "0 \<le> anchor v - s"
    by (simp add: free_cell_def in_bounds_cell_at)
  with valid_geometry(2) [OF v] v(3) show ?thesis by simp
qed

lemma moves_iff_slides:
  assumes v: "valid_board b" "(k, v) \<in> set (vehicles b)" "1 \<le> length_v v"
  shows "(k, s) \<in> set (get_possible_moves b) \<longleftrightarrow>
     (1 \<le> s \<and> (\<forall>j. 1 \<le> j \<and> j \<le> s \<longrightarrow> \<not> slide_blocked b k v j))
     \<or> (s \<le> - 1 \<and> (\<forall>j. 1 \<le> j \<and> j \<le> - s \<longrightarrow> \<not> slide_blocked b k v (- j)))"
proof -
  have "(k, s) \<in> set (get_possible_moves b) \<longleftrightarrow>
      (1 \<le> s \<and> s \<le> size_b b - 1 \<and> (\<forall>j. 1 \<le> j \<and> j \<le> s \<longrightarrow> \<not> fwd_blocked b v j))
      \<or> (1 \<le> - s \<and> - s \<le> size_b b - 1 \<and> (\<forall>j. 1 \<le> j \<and> j \<le> - s \<longrightarrow> \<not> bwd_blocked b v j))"
    unfolding get_possible_moves_iff using valid_unique [OF v(1,2)] v(2) by blast
  also have "\<dots> \<longleftrightarrow>
      (1 \<le> s \<and> s \<le> size_b b - 1 \<and> (\<forall>j. 1 \<le> j \<and> j \<le> s \<longrightarrow> \<not> slide_blocked b k v j))
      \<or> (1 \<le> - s \<and> - s \<le> size_b b - 1 \<and> (\<forall>j. 1 \<le> j \<and> j \<le> - s \<longrightarrow> \<not> slide_blocked b k v (- j)))"
    unfolding forward_run [OF v] backward_run [OF v] ..
  also have "\<dots> \<longleftrightarrow>
      (1 \<le> s \<and> (\<forall>j. 1 \<le> j \<and> j \<le> s \<longrightarrow> \<not> slide_blocked b k v j))
      \<or> (s \<le> - 1 \<and> (\<forall>j. 1 \<le> j \<and> j \<le> - s \<longrightarrow> \<not> slide_blocked b k v (- j)))"
  proof -
    have f: "s \<le> size_b b - 1"
      if "1 \<le> s" "\<forall>j. 1 \<le> j \<and> j \<le> s \<longrightarrow> \<not> slide_blocked b k v j"
      using forward_run_short [OF v that(1)] that by simp
    have g: "- s \<le> size_b b - 1"
      if "s \<le> - 1" "\<forall>j. 1 \<le> j \<and> j \<le> - s \<longrightarrow> \<not> slide_blocked b k v (- j)"
    proof -
      from that have "\<not> slide_blocked b k v (- (- s))"
        by (intro that(2) [rule_format]) simp
      with that(1) show ?thesis
        by (intro backward_run_short [OF v]) simp_all
    qed
    show ?thesis using f g by auto
  qed
  finally show ?thesis .
qed

lemma empty_vehicle_slides:
  "length_v v \<le> 0 \<Longrightarrow> \<not> slide_blocked b k v s"
  by (auto simp: slide_free_iff)

lemma legal_move_slides:
  assumes "valid_board b" "(k, s) \<in> set (get_possible_moves b)"
  shows "\<exists>v. (k, v) \<in> set (vehicles b) \<and> \<not> slide_blocked b k v s"
proof -
  from assms(2) obtain v where v: "(k, v) \<in> set (vehicles b)"
    unfolding get_possible_moves_iff by blast
  show ?thesis
  proof (cases "1 \<le> length_v v")
    case True
    from assms(2) have "(1 \<le> s \<and> (\<forall>j. 1 \<le> j \<and> j \<le> s \<longrightarrow> \<not> slide_blocked b k v j))
        \<or> (s \<le> - 1 \<and> (\<forall>j. 1 \<le> j \<and> j \<le> - s \<longrightarrow> \<not> slide_blocked b k v (- j)))"
      unfolding moves_iff_slides [OF assms(1) v True] .
    then have "\<not> slide_blocked b k v s"
    proof
      assume "1 \<le> s \<and> (\<forall>j. 1 \<le> j \<and> j \<le> s \<longrightarrow> \<not> slide_blocked b k v j)"
      then show ?thesis by simp
    next
      assume a: "s \<le> - 1 \<and> (\<forall>j. 1 \<le> j \<and> j \<le> - s \<longrightarrow> \<not> slide_blocked b k v (- j))"
      then have "\<not> slide_blocked b k v (- (- s))" by (intro a [THEN conjunct2, rule_format]) simp
      then show ?thesis by simp
    qed
    with v show ?thesis by blast
  next
    case False
    then have "\<not> slide_blocked b k v s" by (simp add: empty_vehicle_slides)
    with v show ?thesis by blast
  qed
qed

text \<open>
  C3. On a valid board, for a vehicle \<open>v\<close> of positive length stored under \<open>k\<close>:
  \<open>get_possible_moves\<close> contains \<open>(k, s)\<close> exactly when \<open>s\<close> is positive and no slide
  by \<open>1, \<dots>, s\<close> cells is blocked (the forward moves up to, and excluding, the first
  blocked step count), or \<open>s\<close> is negative and no slide by \<open>-1, \<dots>, s\<close> is blocked. A
  slide is blocked when it puts a cell of the vehicle outside the grid or on a cell of a
  vehicle under another key, so the vehicle's own cells never block it. No move is
  emitted for a key that is not on the board.
\<close>

theorem get_possible_moves_exact:
  assumes "valid_board b" and "(k, v) \<in> set (vehicles b)" and "1 \<le> length_v v"
  shows "(\<forall>s. ((k, s) \<in> set (get_possible_moves b)) =
           ((1 \<le> s \<and> (\<forall>j \<in> {1..s}. \<not> slide_blocked b k v j))
            \<or> (s \<le> - 1 \<and> (\<forall>j \<in> {1..- s}. \<not> slide_blocked b k v (- j)))))
         \<and> (\<forall>(k', s') \<in> set (get_possible_moves b). k' \<in> fst ` set (vehicles b))"
proof (intro conjI allI)
  fix s
  show "((k, s) \<in> set (get_possible_moves b)) =
           ((1 \<le> s \<and> (\<forall>j \<in> {1..s}. \<not> slide_blocked b k v j))
            \<or> (s \<le> - 1 \<and> (\<forall>j \<in> {1..- s}. \<not> slide_blocked b k v (- j))))"
    unfolding moves_iff_slides [OF assms] by auto
next
  have "k' \<in> fst ` set (vehicles b)" if "(k', s') \<in> set (get_possible_moves b)" for k' s'
    using that unfolding get_possible_moves_iff by force
  then show "\<forall>(k', s') \<in> set (get_possible_moves b). k' \<in> fst ` set (vehicles b)"
    by blast
qed

theorem get_possible_moves_exact_witness:
  "valid_board board_blocked \<and> (''car_1'', car_1) \<in> set (vehicles board_blocked)
   \<and> 1 \<le> length_v car_1
   \<and> (''car_1'', 2) \<in> set (get_possible_moves board_blocked)
   \<and> (''car_1'', 3) \<notin> set (get_possible_moves board_blocked)
   \<and> (''car_1'', - 2) \<in> set (get_possible_moves board_blocked)
   \<and> (''car_1'', - 3) \<notin> set (get_possible_moves board_blocked)"
proof -
  have h: "valid_board board_blocked" "(''car_1'', car_1) \<in> set (vehicles board_blocked)"
    "1 \<le> length_v car_1"
    by code_simp+
  have f: "\<forall>j \<in> {1..2}. \<not> slide_blocked board_blocked ''car_1'' car_1 j"
    and f3: "slide_blocked board_blocked ''car_1'' car_1 3"
    and g: "\<forall>j \<in> {1..- (- 2)}. \<not> slide_blocked board_blocked ''car_1'' car_1 (- j)"
    and g3: "slide_blocked board_blocked ''car_1'' car_1 (- 3)"
    by code_simp+
  note e = get_possible_moves_exact [OF h, THEN conjunct1, rule_format]
  have "(''car_1'', 2) \<in> set (get_possible_moves board_blocked)"
    unfolding e using f by simp
  moreover have "(''car_1'', 3) \<notin> set (get_possible_moves board_blocked)"
    unfolding e using f3 by auto
  moreover have "(''car_1'', - 2) \<in> set (get_possible_moves board_blocked)"
    unfolding e using g by simp
  moreover have "(''car_1'', - 3) \<notin> set (get_possible_moves board_blocked)"
    unfolding e using g3 by auto
  ultimately show ?thesis using h by blast
qed

section \<open>Applying a move\<close>

lemma cells_ok_free:
  "cells_ok b \<longleftrightarrow> (\<forall>(k, v) \<in> set (vehicles b). \<forall>c \<in> occupies v. free_cell b k c)"
  unfolding cells_ok_def free_cell_def by fastforce

lemma update_fresh: "k \<notin> fst ` set al \<Longrightarrow> AList.update k v al = al @ [(k, v)]"
  by (induction al) auto

lemma move_step_moved:
  "move_step k s item nb = snd (add_vehicle nb (snd (moved k s item)))"
  by (cases item) (simp add: move_step_def moved_def Let_def)

lemma move_as_build:
  "move b k s = build (size_b b) (map (snd \<circ> moved k s) (vehicles b))"
proof -
  have "move_step k s = (\<lambda>v nb. snd (add_vehicle nb v)) \<circ> (snd \<circ> moved k s)"
    by (intro ext) (simp add: move_step_moved)
  then show ?thesis
    by (simp add: move_def build_def fold_map)
qed

lemma cells_ok_subset:
  assumes "cells_ok \<lparr>size_b = n, vehicles = es'\<rparr>" "set es \<subseteq> set es'"
  shows "cells_ok \<lparr>size_b = n, vehicles = es\<rparr>"
proof -
  have sub: "x \<in> set es \<Longrightarrow> x \<in> set es'" for x using assms(2) by blast
  from assms(1) show ?thesis
    unfolding cells_ok_def by (simp add: case_prod_beta) (meson sub)
qed

lemma valid_board_butlast:
  assumes "valid_board \<lparr>size_b = n, vehicles = es @ [e]\<rparr>"
  shows "valid_board \<lparr>size_b = n, vehicles = es\<rparr>"
proof -
  from assms have "cells_ok \<lparr>size_b = n, vehicles = es @ [e]\<rparr>"
    by (simp add: valid_board_def)
  then have "cells_ok \<lparr>size_b = n, vehicles = es\<rparr>"
    by (rule cells_ok_subset) auto
  with assms show ?thesis by (simp add: valid_board_def)
qed

lemma add_vehicle_last:
  assumes "valid_board \<lparr>size_b = n, vehicles = es @ [e]\<rparr>"
  shows "add_vehicle \<lparr>size_b = n, vehicles = es\<rparr> (snd e) = (True, \<lparr>size_b = n, vehicles = es @ [e]\<rparr>)"
proof -
  obtain k v where e: "e = (k, v)" by (cases e)
  from assms have fresh: "k \<notin> fst ` set es" and idv: "id_v v = k"
    unfolding valid_board_def e by auto
  from assms have "cells_ok \<lparr>size_b = n, vehicles = es @ [(k, v)]\<rparr>"
    unfolding valid_board_def e by simp
  then have inb: "\<forall>c \<in> occupies v. in_bounds n c"
    and dis: "\<forall>(k', v') \<in> set es. k' \<noteq> k \<longrightarrow> occupies v \<inter> occupies v' = {}"
    unfolding cells_ok_def by auto
  have "\<not> overlap_detected (occupies v) (map snd es)"
    unfolding overlap_detected_iff using dis fresh by force
  moreover have "\<not> out_of_bounds n (occupies v)"
    unfolding out_of_bounds_def using inb by (force simp: in_bounds_def)
  ultimately show ?thesis
    by (simp add: add_vehicle_def e idv update_fresh [OF fresh])
qed

lemma build_valid:
  "valid_board \<lparr>size_b = n, vehicles = es\<rparr> \<Longrightarrow>
     build n (map snd es) = \<lparr>size_b = n, vehicles = es\<rparr>"
proof (induction es rule: rev_induct)
  case Nil
  then show ?case by (simp add: build_def Board_def)
next
  case (snoc e es)
  from snoc.IH [OF valid_board_butlast [OF snoc.prems]]
  have "build n (map snd (es @ [e])) = snd (add_vehicle \<lparr>size_b = n, vehicles = es\<rparr> (snd e))"
    by (simp add: build_def)
  with add_vehicle_last [OF snoc.prems] show ?case by simp
qed

lemma moved_set:
  "(k1, v1') \<in> set (map (moved k s) es) \<longleftrightarrow>
     (\<exists>v1. (k1, v1) \<in> set es \<and> v1' = (if k1 = k then shifted v1 s else v1))"
  by (force simp: moved_def)

lemma fst_moved [simp]: "fst (moved k s item) = fst item"
  by (cases item) (simp add: moved_def)

lemma fst_comp_moved [simp]: "fst \<circ> moved k s = fst"
  by (rule ext) simp

lemma free_cell_moved:
  assumes "free_cell b k1 c" "k1 \<noteq> k \<longrightarrow> c \<notin> occupies (shifted v s)"
    and "valid_board b" "(k, v) \<in> set (vehicles b)"
  shows "free_cell \<lparr>size_b = size_b b, vehicles = map (moved k s) (vehicles b)\<rparr> k1 c"
  unfolding free_cell_def
proof (intro conjI ballI)
  show "in_bounds (size_b \<lparr>size_b = size_b b, vehicles = map (moved k s) (vehicles b)\<rparr>) c"
    using assms(1) by (simp add: free_cell_def)
next
  fix x assume x: "x \<in> set (vehicles \<lparr>size_b = size_b b, vehicles = map (moved k s) (vehicles b)\<rparr>)"
  obtain k2 v2' where x2: "x = (k2, v2')" by (cases x)
  with x have "(k2, v2') \<in> set (map (moved k s) (vehicles b))" by simp
  then obtain v2 where v2: "(k2, v2) \<in> set (vehicles b)"
      "v2' = (if k2 = k then shifted v2 s else v2)"
    unfolding moved_set by blast
  have "k2 \<noteq> k1 \<longrightarrow> c \<notin> occupies v2'"
  proof (cases "k2 = k")
    case True
    with v2 valid_unique [OF assms(3,4)] have "v2' = shifted v s" by auto
    with assms(2) True show ?thesis by auto
  next
    case False
    with v2 assms(1) show ?thesis by (auto simp: free_cell_def)
  qed
  then show "case x of (k', v') \<Rightarrow> k' \<noteq> k1 \<longrightarrow> c \<notin> occupies v'"
    by (simp add: x2)
qed

lemma moved_valid:
  assumes b: "valid_board b" and v: "(k, v) \<in> set (vehicles b)"
    and free: "\<not> slide_blocked b k v s"
  shows "valid_board \<lparr>size_b = size_b b, vehicles = map (moved k s) (vehicles b)\<rparr>"
proof -
  let ?b' = "\<lparr>size_b = size_b b, vehicles = map (moved k s) (vehicles b)\<rparr>"
  have d: "distinct (map fst (vehicles ?b'))"
    using b by (simp add: valid_board_def)
  have "id_v v1' = k1" if "(k1, v1') \<in> set (map (moved k s) (vehicles b))" for k1 v1'
    using that b unfolding moved_set valid_board_def by auto
  then have "\<forall>(k1, v1) \<in> set (map (moved k s) (vehicles b)). id_v v1 = k1"
    by blast
  then have i: "\<forall>(k1, v1) \<in> set (vehicles ?b'). id_v v1 = k1"
    by simp
  have "free_cell ?b' k1 c" if "(k1, v1') \<in> set (vehicles ?b')" "c \<in> occupies v1'" for k1 v1' c
  proof -
    from that(1) have "(k1, v1') \<in> set (map (moved k s) (vehicles b))" by simp
    then obtain v1 where v1: "(k1, v1) \<in> set (vehicles b)"
      "v1' = (if k1 = k then shifted v1 s else v1)"
      unfolding moved_set by blast
    show ?thesis
    proof (cases "k1 = k")
      case True
      with v1 valid_unique [OF b v] have "v1' = shifted v s" by auto
      with that(2) free have "free_cell b k c" by (simp add: not_slide_blocked_iff)
      with True show ?thesis by (intro free_cell_moved [OF _ _ b v]) simp_all
    next
      case False
      with v1 that(2) have c: "c \<in> occupies v1" by simp
      have "c \<notin> occupies (shifted v s)"
      proof
        assume "c \<in> occupies (shifted v s)"
        with free have "free_cell b k c" by (simp add: not_slide_blocked_iff)
        with v1(1) False c show False by (auto simp: free_cell_def)
      qed
      with valid_own_free [OF b v1(1) c] show ?thesis
        by (intro free_cell_moved [OF _ _ b v]) simp_all
    qed
  qed
  then have "cells_ok ?b'" unfolding cells_ok_free by blast
  with d i show ?thesis unfolding valid_board_def by blast
qed

lemma move_legal:
  assumes "valid_board b" "(k, s) \<in> set (get_possible_moves b)"
  shows "move b k s = \<lparr>size_b = size_b b, vehicles = map (moved k s) (vehicles b)\<rparr>"
    and "valid_board (move b k s)"
proof -
  from legal_move_slides [OF assms] obtain v where
    v: "(k, v) \<in> set (vehicles b)" "\<not> slide_blocked b k v s" by blast
  note val = moved_valid [OF assms(1) v]
  have "move b k s = build (size_b b) (map snd (map (moved k s) (vehicles b)))"
    by (simp add: move_as_build)
  also have "\<dots> = \<lparr>size_b = size_b b, vehicles = map (moved k s) (vehicles b)\<rparr>"
    by (rule build_valid [OF val])
  finally show "move b k s = \<lparr>size_b = size_b b, vehicles = map (moved k s) (vehicles b)\<rparr>" .
  with val show "valid_board (move b k s)" by simp
qed

text \<open>
  C5. For a move that \<open>get_possible_moves\<close> returned for a valid board, \<open>move\<close> returns a
  board of the same size whose mapping has the same keys in the same order; every vehicle
  under another key is unchanged, and the vehicle under \<open>v_id\<close> is the old one with only
  its column (if horizontal) or its row (otherwise) advanced by \<open>steps\<close>.
\<close>

theorem move_frame:
  assumes "valid_board b" and "(v_id, steps) \<in> set (get_possible_moves b)"
  shows "size_b (move b v_id steps) = size_b b
     \<and> vehicles (move b v_id steps) =
         map (\<lambda>(vid, v).
                (vid, if vid = v_id
                      then (if orientation v = ''horizontal''
                            then v\<lparr>col := col v + steps\<rparr> else v\<lparr>row := row v + steps\<rparr>)
                      else v))
             (vehicles b)"
proof -
  have "moved v_id steps =
      (\<lambda>(vid, v). (vid, if vid = v_id
                      then (if orientation v = ''horizontal''
                            then v\<lparr>col := col v + steps\<rparr> else v\<lparr>row := row v + steps\<rparr>)
                      else v))"
    by (rule ext) (simp add: moved_def shifted_def split: prod.splits)
  with move_legal(1) [OF assms] show ?thesis by simp
qed

theorem move_frame_witness:
  "valid_board board_blocked \<and> (''car_1'', 1) \<in> set (get_possible_moves board_blocked)
   \<and> vehicles (move board_blocked ''car_1'' 1) =
       [(''target'', target_at 0), (''car_1'', car_1\<lparr>row := 3\<rparr>)]"
proof -
  have h: "valid_board board_blocked" "(''car_1'', 1) \<in> set (get_possible_moves board_blocked)"
    by code_simp+
  have "map (\<lambda>(vid, v).
                (vid, if vid = ''car_1''
                      then (if orientation v = ''horizontal''
                            then v\<lparr>col := col v + 1\<rparr> else v\<lparr>row := row v + 1\<rparr>)
                      else v))
             (vehicles board_blocked)
        = [(''target'', target_at 0), (''car_1'', car_1\<lparr>row := 3\<rparr>)]"
    by (simp add: board_blocked_def car_1_def)
  with move_frame [OF h] h show ?thesis by simp
qed

text \<open>
  C4. A move that \<open>get_possible_moves\<close> returned for a valid board leads to a valid board:
  the occupied cells are again within the grid and pairwise disjoint (\<open>cells_ok\<close>), and
  the mapping still stores every vehicle under its own id.
\<close>

theorem legal_move_valid:
  assumes "valid_board b" and "(v_id, steps) \<in> set (get_possible_moves b)"
  shows "valid_board (move b v_id steps) \<and> cells_ok (move b v_id steps)"
  using move_legal(2) [OF assms] by (simp add: valid_board_def)

theorem legal_move_valid_witness:
  "valid_board board_blocked \<and> (''car_1'', - 2) \<in> set (get_possible_moves board_blocked)
   \<and> valid_board (move board_blocked ''car_1'' (- 2))
   \<and> cells_ok (move board_blocked ''car_1'' (- 2))"
proof -
  have h: "valid_board board_blocked" "(''car_1'', - 2) \<in> set (get_possible_moves board_blocked)"
    by code_simp+
  from legal_move_valid [OF h] h show ?thesis by simp
qed

subsection \<open>Moves that \<open>get_possible_moves\<close> did not return\<close>

lemma set_update_distinct:
  "distinct (map fst al) \<Longrightarrow> (k1, v1) \<in> set (AList.update k v al) \<Longrightarrow>
     (k1, v1) = (k, v) \<or> ((k1, v1) \<in> set al \<and> k1 \<noteq> k)"
  by (induction al) (force split: if_splits)+

lemma add_vehicle_keeps:
  assumes d: "distinct (map fst (vehicles b))" and c: "cells_ok b"
  shows "distinct (map fst (vehicles (snd (add_vehicle b v))))
     \<and> cells_ok (snd (add_vehicle b v)) \<and> size_b (snd (add_vehicle b v)) = size_b b"
proof (cases "fst (add_vehicle b v)")
  case False
  then have "snd (add_vehicle b v) = b"
    by (auto simp: add_vehicle_def Let_def split: if_splits)
  with d c show ?thesis by simp
next
  case True
  let ?al = "AList.update (id_v v) v (vehicles b)"
  from True have res: "snd (add_vehicle b v) = b\<lparr>vehicles := ?al\<rparr>"
    and nov: "\<not> overlap_detected (occupies v) (map snd (vehicles b))"
    and inb: "\<not> out_of_bounds (size_b b) (occupies v)"
    by (auto simp: add_vehicle_def Let_def split: if_splits)
  from nov have dis: "occupies v \<inter> occupies u = {}" if "(k', u) \<in> set (vehicles b)" for k' u
    using that unfolding overlap_detected_iff by force
  from inb have bnd: "in_bounds (size_b b) x" if "x \<in> occupies v" for x
    using that unfolding out_of_bounds_def in_bounds_def by (cases x) force
  have old: "\<forall>x \<in> occupies v1. free_cell b k1 x" if "(k1, v1) \<in> set (vehicles b)" for k1 v1
    using c that unfolding cells_ok_free by blast
  have "free_cell (b\<lparr>vehicles := ?al\<rparr>) k1 x"
    if m: "(k1, v1) \<in> set ?al" and x: "x \<in> occupies v1" for k1 v1 x
    unfolding free_cell_def
  proof (intro conjI ballI)
    from set_update_distinct [OF d m]
    have "in_bounds (size_b b) x"
    proof
      assume "(k1, v1) = (id_v v, v)"
      with x show ?thesis by (intro bnd) simp
    next
      assume "(k1, v1) \<in> set (vehicles b) \<and> k1 \<noteq> id_v v"
      with old [of k1 v1] x show ?thesis by (simp add: free_cell_def)
    qed
    then show "in_bounds (size_b (b\<lparr>vehicles := ?al\<rparr>)) x"
      by simp
  next
    fix y assume "y \<in> set (vehicles (b\<lparr>vehicles := ?al\<rparr>))"
    then have y: "y \<in> set ?al" by simp
    obtain k2 v2 where y2: "y = (k2, v2)" by (cases y)
    from set_update_distinct [OF d m]
    have "k2 \<noteq> k1 \<longrightarrow> x \<notin> occupies v2"
    proof
      assume "(k1, v1) = (id_v v, v)"
      with set_update_distinct [OF d y [unfolded y2]] x dis show ?thesis by auto
    next
      assume a: "(k1, v1) \<in> set (vehicles b) \<and> k1 \<noteq> id_v v"
      from set_update_distinct [OF d y [unfolded y2]] show ?thesis
      proof
        assume "(k2, v2) = (id_v v, v)"
        with a x dis show ?thesis by auto
      next
        assume "(k2, v2) \<in> set (vehicles b) \<and> k2 \<noteq> id_v v"
        with old [of k1 v1] a x show ?thesis by (auto simp: free_cell_def)
      qed
    qed
    then show "case y of (k', v') \<Rightarrow> k' \<noteq> k1 \<longrightarrow> x \<notin> occupies v'"
      by (simp add: y2)
  qed
  then have "cells_ok (b\<lparr>vehicles := ?al\<rparr>)"
    unfolding cells_ok_free by auto
  with d res show ?thesis by (simp add: distinct_update)
qed

lemma build_keeps:
  "distinct (map fst (vehicles (build n vs))) \<and> cells_ok (build n vs) \<and> size_b (build n vs) = n"
proof (induction vs rule: rev_induct)
  case Nil
  show ?case by (simp add: build_def Board_def cells_ok_def)
next
  case (snoc v vs)
  have "build n (vs @ [v]) = snd (add_vehicle (build n vs) v)"
    by (simp add: build_def)
  with add_vehicle_keeps [of "build n vs" v] snoc.IH show ?case by simp
qed

text \<open>
  C7, as the code has it. \<open>move\<close> has no failure path: for every board and every move,
  legal or not, it returns a board, and the returned board has no key twice, every
  occupied cell within the grid and no cell shared by two vehicles.
\<close>

theorem move_never_invalid:
  "distinct (map fst (vehicles (move b v_id steps)))
   \<and> cells_ok (move b v_id steps)
   \<and> size_b (move b v_id steps) = size_b b"
  unfolding move_as_build by (rule build_keeps)

theorem move_never_invalid_witness:
  "(''target'', 1) \<notin> set (get_possible_moves board_blocked)
   \<and> vehicles (move board_blocked ''target'' 1) \<noteq> []
   \<and> cells_ok (move board_blocked ''target'' 1)"
proof -
  have "(''target'', 1) \<notin> set (get_possible_moves board_blocked)"
    and "vehicles (move board_blocked ''target'' 1) \<noteq> []"
    by code_simp+
  with move_never_invalid [of board_blocked "''target''" 1] show ?thesis by simp
qed

text \<open>
  The claim C7 as stated fails: on the valid board \<open>board_blocked\<close> the move
  \<open>(''target'', 1)\<close> is not among the possible moves, yet \<open>move\<close> returns a board, and
  that board has lost the vehicle \<open>''car_1''\<close>, which \<open>add_vehicle\<close> rejected.
\<close>

theorem move_illegal_counterexample:
  "valid_board board_blocked
   \<and> (''target'', 1) \<notin> set (get_possible_moves board_blocked)
   \<and> move board_blocked ''target'' 1 = \<lparr>size_b = 6, vehicles = [(''target'', target_at 1)]\<rparr>
   \<and> map_of (vehicles (move board_blocked ''target'' 1)) ''car_1'' = None"
  by code_simp

section \<open>Scenario A\<close>

text \<open>
  C6, as the code has it. On the 6x6 board with only the target at row 2, columns 0 and
  1, the possible moves are the slides by 1, 2, 3 and 4 cells; the slide by 3 leaves the
  target on columns 3 and 4, where \<open>col + length = 5\<close>, and the slide by 4 is the first
  that solves the board. \<open>solve_board\<close> returns that one.
\<close>

theorem solve_board_scenario_A:
  "solve_board board_A = (True, 1, [(''target'', 4)])"
  by code_simp

theorem solve_board_scenario_A_counterexample:
  "solve_board board_A \<noteq> (True, 1, [(''target'', 3)])
   \<and> \<not> is_solved (move board_A ''target'' 3)"
  by code_simp

section \<open>The search loop\<close>

lemma expand_Inl:
  "expand cur m p ms vis q = Inl r \<Longrightarrow>
     \<exists>mv \<in> set ms. is_solved (move cur (fst mv) (snd mv)) \<and> r = (True, m + 1, p @ [mv])"
proof (induction ms arbitrary: vis q)
  case Nil
  then show ?case by simp
next
  case (Cons a ms)
  obtain v_id steps where a: "a = (v_id, steps)" by (cases a)
  show ?case
  proof (cases "get_state_hash (move cur v_id steps) \<in> vis")
    case True
    with Cons.prems a have "expand cur m p ms vis q = Inl r" by simp
    from Cons.IH [OF this] show ?thesis by auto
  next
    case False
    show ?thesis
    proof (cases "is_solved (move cur v_id steps)")
      case True
      with False Cons.prems a show ?thesis by (simp add: Let_def)
    next
      case solved: False
      with False Cons.prems a
      have "expand cur m p ms (insert (get_state_hash (move cur v_id steps)) vis)
              (q @ [(move cur v_id steps, m + 1, p @ [(v_id, steps)])]) = Inl r"
        by (simp add: Let_def)
      from Cons.IH [OF this] show ?thesis by auto
    qed
  qed
qed

lemma expand_Inr:
  "expand cur m p ms vis q = Inr (vis', q') \<Longrightarrow>
     \<exists>new. q' = q @ map (child cur m p) new \<and> set new \<subseteq> set ms
        \<and> (\<forall>mv \<in> set new. \<not> is_solved (move cur (fst mv) (snd mv)))
        \<and> vis' = vis \<union> (\<lambda>mv. get_state_hash (move cur (fst mv) (snd mv))) ` set new
        \<and> (\<forall>mv \<in> set ms. get_state_hash (move cur (fst mv) (snd mv)) \<in> vis')"
proof (induction ms arbitrary: vis q)
  case Nil
  then have "q' = q @ map (child cur m p) [] \<and> vis' = vis" by simp
  then show ?case by fastforce
next
  case (Cons a ms)
  obtain v_id steps where a: "a = (v_id, steps)" by (cases a)
  let ?h = "get_state_hash (move cur v_id steps)"
  show ?case
  proof (cases "?h \<in> vis")
    case True
    with Cons.prems a have "expand cur m p ms vis q = Inr (vis', q')" by simp
    from Cons.IH [OF this] obtain new where new: "q' = q @ map (child cur m p) new"
      "set new \<subseteq> set ms" "\<forall>mv \<in> set new. \<not> is_solved (move cur (fst mv) (snd mv))"
      "vis' = vis \<union> (\<lambda>mv. get_state_hash (move cur (fst mv) (snd mv))) ` set new"
      "\<forall>mv \<in> set ms. get_state_hash (move cur (fst mv) (snd mv)) \<in> vis'"
      by blast
    from new(4) True have "?h \<in> vis'" by simp
    with new a have "q' = q @ map (child cur m p) new \<and> set new \<subseteq> set (a # ms)
        \<and> (\<forall>mv \<in> set new. \<not> is_solved (move cur (fst mv) (snd mv)))
        \<and> vis' = vis \<union> (\<lambda>mv. get_state_hash (move cur (fst mv) (snd mv))) ` set new
        \<and> (\<forall>mv \<in> set (a # ms). get_state_hash (move cur (fst mv) (snd mv)) \<in> vis')"
      by auto
    then show ?thesis by blast
  next
    case False
    with Cons.prems a have ns: "\<not> is_solved (move cur v_id steps)"
      by (auto simp: Let_def split: if_splits)
    with False Cons.prems a
    have "expand cur m p ms (insert ?h vis) (q @ [child cur m p a]) = Inr (vis', q')"
      by (simp add: Let_def child_def)
    from Cons.IH [OF this] obtain new where new: "q' = (q @ [child cur m p a]) @ map (child cur m p) new"
      "set new \<subseteq> set ms" "\<forall>mv \<in> set new. \<not> is_solved (move cur (fst mv) (snd mv))"
      "vis' = insert ?h vis \<union> (\<lambda>mv. get_state_hash (move cur (fst mv) (snd mv))) ` set new"
      "\<forall>mv \<in> set ms. get_state_hash (move cur (fst mv) (snd mv)) \<in> vis'"
      by blast
    from new ns a have "q' = q @ map (child cur m p) (a # new) \<and> set (a # new) \<subseteq> set (a # ms)
        \<and> (\<forall>mv \<in> set (a # new). \<not> is_solved (move cur (fst mv) (snd mv)))
        \<and> vis' = vis \<union> (\<lambda>mv. get_state_hash (move cur (fst mv) (snd mv))) ` set (a # new)
        \<and> (\<forall>mv \<in> set (a # ms). get_state_hash (move cur (fst mv) (snd mv)) \<in> vis')"
      by auto
    then show ?thesis by blast
  qed
qed

text \<open>An invariant rule for the search loop.\<close>

lemma bfs_rule:
  assumes init: "I q vis"
    and skip: "\<And>cur m p q vis. I ((cur, m, p) # q) vis \<Longrightarrow> MAX_DEPTH \<le> m \<Longrightarrow> I q vis"
    and grow: "\<And>cur m p q vis vis' q'. I ((cur, m, p) # q) vis \<Longrightarrow> \<not> MAX_DEPTH \<le> m \<Longrightarrow>
        expand cur m p (get_possible_moves cur) vis q = Inr (vis', q') \<Longrightarrow> I q' vis'"
    and found: "\<And>cur m p q vis r. I ((cur, m, p) # q) vis \<Longrightarrow> \<not> MAX_DEPTH \<le> m \<Longrightarrow>
        expand cur m p (get_possible_moves cur) vis q = Inl r \<Longrightarrow> Q r"
    and none: "Q (False, 0, [])"
  shows "Q (bfs q vis)"
  using init
proof (induction q vis rule: bfs.induct)
  case (1 visited)
  show ?case using none by (simp add: bfs.simps)
next
  case (2 cur m p queue visited)
  show ?case
  proof (cases "MAX_DEPTH \<le> m")
    case True
    from "2.IH"(1) [OF True skip [OF "2.prems" True]] True show ?thesis by (simp add: bfs.simps)
  next
    case False
    show ?thesis
    proof (cases "expand cur m p (get_possible_moves cur) visited queue")
      case (Inl r)
      from found [OF "2.prems" False Inl] Inl False show ?thesis by (simp add: bfs.simps)
    next
      case (Inr x2)
      obtain vis' q' where x2: "x2 = (vis', q')" by (cases x2)
      from "2.IH"(2) [OF False Inr x2 [symmetric] grow [OF "2.prems" False Inr [unfolded x2]]]
      show ?thesis using Inr False x2 by (simp add: bfs.simps)
    qed
  qed
qed

lemma replay_snoc: "replay b (p @ [mv]) = move (replay b p) (fst mv) (snd mv)"
  by (induction b p rule: replay.induct) (cases mv, simp_all)

lemma bfs_path:
  assumes "\<forall>e \<in> set q. path_ok root e"
  shows "\<forall>k path. bfs q vis = (True, k, path) \<longrightarrow>
            int (length path) = k \<and> is_solved (replay root path)"
proof (rule bfs_rule [where I = "\<lambda>q vis. \<forall>e \<in> set q. path_ok root e"])
  show "\<forall>e \<in> set q. path_ok root e" by (rule assms)
next
  fix cur m p q vis
  assume "\<forall>e \<in> set ((cur, m, p) # q). path_ok root e"
  then show "\<forall>e \<in> set q. path_ok root e" by simp
next
  fix cur m p q vis vis' q'
  assume I: "\<forall>e \<in> set ((cur, m, p) # q). path_ok root e"
    and ex: "expand cur m p (get_possible_moves cur) vis q = Inr (vis', q')"
  from I have c: "int (length p) = m" "replay root p = cur" by (simp_all add: path_ok_def)
  from expand_Inr [OF ex] obtain new where q': "q' = q @ map (child cur m p) new" by blast
  have "path_ok root (child cur m p mv)" for mv
    using c by (simp add: path_ok_def child_def replay_snoc)
  with I q' show "\<forall>e \<in> set q'. path_ok root e" by auto
next
  fix cur m p q vis r
  assume I: "\<forall>e \<in> set ((cur, m, p) # q). path_ok root e"
    and ex: "expand cur m p (get_possible_moves cur) vis q = Inl r"
  from I have c: "int (length p) = m" "replay root p = cur" by (simp_all add: path_ok_def)
  from expand_Inl [OF ex] obtain mv where
    "is_solved (move cur (fst mv) (snd mv))" "r = (True, m + 1, p @ [mv])" by blast
  with c show "\<forall>k path. r = (True, k, path) \<longrightarrow>
            int (length path) = k \<and> is_solved (replay root path)"
    by (simp add: replay_snoc)
next
  show "\<forall>k path. (False, 0, []) = (True, k, path) \<longrightarrow>
            int (length path) = k \<and> is_solved (replay root path)" by simp
qed

lemma solve_board_path:
  assumes "solve_board b = (True, k, path)"
  shows "int (length path) = k \<and> is_solved (replay b path)"
proof (cases "is_solved b")
  case True
  with assms show ?thesis by (auto simp: solve_board_def)
next
  case False
  with assms have "bfs [(b, 0, [])] {get_state_hash b} = (True, k, path)"
    by (simp add: solve_board_def)
  moreover have "\<forall>e \<in> set [(b, 0, [])]. path_ok b e" by (simp add: path_ok_def)
  ultimately show ?thesis using bfs_path by blast
qed

text \<open>Boards without a target.\<close>

lemma set_update_subset: "set (AList.update k v al) \<subseteq> insert (k, v) (set al)"
  by (induction al) auto

lemma add_vehicle_entries:
  "set (vehicles (snd (add_vehicle b v))) \<subseteq> insert (id_v v, v) (set (vehicles b))"
  using set_update_subset [of "id_v v" v "vehicles b"]
  by (auto simp: add_vehicle_def Let_def)

lemma build_entries:
  "(k, v) \<in> set (vehicles (build n vs)) \<Longrightarrow> v \<in> set vs \<and> k = id_v v"
proof (induction vs arbitrary: k v rule: rev_induct)
  case Nil
  then show ?case by (simp add: build_def Board_def)
next
  case (snoc u vs)
  have "build n (vs @ [u]) = snd (add_vehicle (build n vs) u)"
    by (simp add: build_def)
  with snoc.prems add_vehicle_entries [of "build n vs" u]
  have "(k, v) = (id_v u, u) \<or> (k, v) \<in> set (vehicles (build n vs))" by auto
  with snoc.IH show ?case by auto
qed

lemma no_target_move:
  assumes "no_target b"
  shows "no_target (move b k s)"
  unfolding no_target_def
proof (intro ballI)
  fix x assume x: "x \<in> set (vehicles (move b k s))"
  obtain k' v' where x2: "x = (k', v')" by (cases x)
  from x have "v' \<in> set (map (snd \<circ> moved k s) (vehicles b)) \<and> k' = id_v v'"
    unfolding move_as_build x2 by (rule build_entries)
  then obtain k0 v0 where "(k0, v0) \<in> set (vehicles b)" "v' = snd (moved k s (k0, v0))"
    and k': "k' = id_v v'" by auto
  with assms have "id_v v' \<noteq> ''target''"
    by (auto simp: no_target_def moved_def)
  with k' show "case x of (k, v) \<Rightarrow> k \<noteq> ''target'' \<and> id_v v \<noteq> ''target''"
    by (simp add: x2)
qed

lemma no_target_unsolved: "no_target b \<Longrightarrow> \<not> is_solved b"
proof -
  assume "no_target b"
  then have "map_of (vehicles b) ''target'' = None"
    by (force simp: no_target_def map_of_eq_None_iff)
  then show ?thesis by (simp add: is_solved_def)
qed

lemma bfs_no_target:
  assumes "\<forall>e \<in> set q. no_target (fst e)"
  shows "bfs q vis = (False, 0, [])"
proof (rule bfs_rule [where I = "\<lambda>q vis. \<forall>e \<in> set q. no_target (fst e)"])
  show "\<forall>e \<in> set q. no_target (fst e)" by (rule assms)
next
  fix cur m p q vis
  assume "\<forall>e \<in> set ((cur, m, p) # q). no_target (fst e)"
  then show "\<forall>e \<in> set q. no_target (fst e)" by simp
next
  fix cur m p q vis vis' q'
  assume I: "\<forall>e \<in> set ((cur, m, p) # q). no_target (fst e)"
    and ex: "expand cur m p (get_possible_moves cur) vis q = Inr (vis', q')"
  from expand_Inr [OF ex] obtain new where q': "q' = q @ map (child cur m p) new" by blast
  from I have "no_target (fst (child cur m p mv))" for mv
    by (simp add: child_def no_target_move)
  with I q' show "\<forall>e \<in> set q'. no_target (fst e)" by auto
next
  fix cur m p q vis r
  assume I: "\<forall>e \<in> set ((cur, m, p) # q). no_target (fst e)"
    and ex: "expand cur m p (get_possible_moves cur) vis q = Inl r"
  from expand_Inl [OF ex] obtain mv where "is_solved (move cur (fst mv) (snd mv))" by blast
  moreover from I have "no_target (move cur (fst mv) (snd mv))"
    by (simp add: no_target_move)
  ultimately show "r = (False, 0, [])" using no_target_unsolved by blast
qed simp

lemma solve_board_no_target:
  assumes "no_target b"
  shows "solve_board b = (False, 0, [])"
  using assms bfs_no_target [of "[(b, 0, [])]"] no_target_unsolved [OF assms]
  by (simp add: solve_board_def)

text \<open>
  C2. Whenever \<open>solve_board\<close> reports a solution \<open>(True, k, path)\<close>, the path has exactly
  \<open>k\<close> moves and replaying it from the input board with \<open>move\<close> ends on a solved board.
  This holds for every board.
\<close>

theorem solve_board_path_replays:
  "solve_board b = (True, k, path) \<Longrightarrow> int (length path) = k \<and> is_solved (replay b path)"
  by (rule solve_board_path)

theorem solve_board_path_replays_witness:
  "solve_board board_blocked = (True, 2, [(''car_1'', 1), (''target'', 4)])
   \<and> int (length [(''car_1'', 1 :: int), (''target'', 4)]) = 2
   \<and> is_solved (replay board_blocked [(''car_1'', 1), (''target'', 4)])"
proof -
  have h: "solve_board board_blocked = (True, 2, [(''car_1'', 1), (''target'', 4)])"
    by code_simp
  from solve_board_path_replays [OF h] h show ?thesis by simp
qed

text \<open>
  C9. On a valid board with no vehicle under the key \<open>''target''\<close> the search terminates
  and reports no solution: \<open>solve_board\<close> returns \<open>(False, 0, [])\<close>.
\<close>

theorem solve_board_without_target:
  assumes "valid_board b" and "''target'' \<notin> fst ` set (vehicles b)"
  shows "solve_board b = (False, 0, []) \<and> fst (solve_board b) = False"
proof -
  have "no_target b"
    unfolding no_target_def
  proof (intro ballI)
    fix x assume x: "x \<in> set (vehicles b)"
    obtain k v where x2: "x = (k, v)" by (cases x)
    from x assms(2) have "k \<noteq> ''target''" unfolding x2 by force
    moreover from x assms(1) have "id_v v = k" unfolding x2 valid_board_def by blast
    ultimately show "case x of (k, v) \<Rightarrow> k \<noteq> ''target'' \<and> id_v v \<noteq> ''target''"
      by (simp add: x2)
  qed
  from solve_board_no_target [OF this] show ?thesis by simp
qed

theorem solve_board_without_target_witness:
  "valid_board board_no_target \<and> ''target'' \<notin> fst ` set (vehicles board_no_target)
   \<and> solve_board board_no_target = (False, 0, [])"
proof -
  have h: "valid_board board_no_target" "''target'' \<notin> fst ` set (vehicles board_no_target)"
    by code_simp+
  from solve_board_without_target [OF h] h show ?thesis by simp
qed

section \<open>Minimality of the reported move count\<close>

lemma legal_path_snoc:
  "legal_path b (p @ [mv]) \<longleftrightarrow> legal_path b p \<and> mv \<in> set (get_possible_moves (replay b p))"
  by (induction b p rule: legal_path.induct) (cases mv, simp_all)

lemma shape_move:
  assumes "valid_board b" "(k, s) \<in> set (get_possible_moves b)"
  shows "shape (move b k s) = shape b"
proof -
  have "(\<lambda>(k, v). (k, id_v v, orientation v, length_v v)) \<circ> moved k s
      = (\<lambda>(k, v). (k, id_v v, orientation v, length_v v))"
    by (rule ext) (auto simp: moved_def)
  then show ?thesis
    unfolding move_legal(1) [OF assms] by (simp add: shape_def)
qed

lemma legal_path_valid:
  "valid_board b \<Longrightarrow> legal_path b ms \<Longrightarrow>
     valid_board (replay b ms) \<and> shape (replay b ms) = shape b"
proof (induction b ms rule: legal_path.induct)
  case (1 b)
  then show ?case by simp
next
  case (2 b v_id steps ms)
  from "2.prems" have mv: "(v_id, steps) \<in> set (get_possible_moves b)"
    and rest: "legal_path (move b v_id steps) ms" by simp_all
  from "2.IH" [OF move_legal(2) [OF "2.prems"(1) mv] rest] shape_move [OF "2.prems"(1) mv]
  show ?case by simp
qed

lemma map_filter_eqD:
  "List.map_filter f ks = List.map_filter g ks \<Longrightarrow>
     \<forall>k \<in> set ks. f k \<noteq> None \<and> g k \<noteq> None \<Longrightarrow> \<forall>k \<in> set ks. f k = g k"
  by (induction ks) (auto simp: map_filter_simps split: option.splits)

lemma hash_lookup:
  assumes "get_state_hash x = get_state_hash y"
    and "map fst (vehicles x) = map fst (vehicles y)"
    and "(k, v) \<in> set (vehicles x)" "(k, v') \<in> set (vehicles y)"
    and "distinct (map fst (vehicles x))"
  shows "row v = row v' \<and> col v = col v'"
proof -
  let ?f = "\<lambda>b v_id. map_option (\<lambda>v. (v_id, row v, col v)) (map_of (vehicles b) v_id)"
  have dy: "distinct (map fst (vehicles y))" using assms(2,5) by simp
  have "map_of (vehicles x) k \<noteq> None \<and> map_of (vehicles y) k \<noteq> None"
    if "k \<in> set (map fst (vehicles x))" for k
  proof -
    from that have "k \<in> fst ` set (vehicles x)" by simp
    moreover from that assms(2) have "k \<in> fst ` set (vehicles y)" by (metis list.set_map)
    ultimately show ?thesis by (simp add: map_of_eq_None_iff)
  qed
  then have some: "\<forall>k \<in> set (sort (map fst (vehicles x))). ?f x k \<noteq> None \<and> ?f y k \<noteq> None"
    by simp
  have "List.map_filter (?f x) (sort (map fst (vehicles x)))
      = List.map_filter (?f y) (sort (map fst (vehicles x)))"
    using assms(1,2) by (simp add: get_state_hash_def)
  from map_filter_eqD [OF this some] have "\<forall>k \<in> set (sort (map fst (vehicles x))). ?f x k = ?f y k" .
  moreover from assms(3) have "k \<in> set (sort (map fst (vehicles x)))"
    by (simp add: rev_image_eqI)
  ultimately have "?f x k = ?f y k" by blast
  moreover have "map_of (vehicles x) k = Some v" using assms(3,5) by simp
  moreover have "map_of (vehicles y) k = Some v'" using assms(4) dy by simp
  ultimately show ?thesis by simp
qed

lemma hash_injective:
  assumes x: "valid_board x" and y: "valid_board y" and sh: "shape x = shape y"
    and h: "get_state_hash x = get_state_hash y"
  shows "x = y"
proof -
  let ?g = "\<lambda>(k, v). (k, id_v v, orientation v, length_v v)"
  from sh have sz: "size_b x = size_b y" and mp: "map ?g (vehicles x) = map ?g (vehicles y)"
    by (simp_all add: shape_def)
  from mp have len: "length (vehicles x) = length (vehicles y)" by (rule map_eq_imp_length_eq)
  from mp have "map fst (map ?g (vehicles x)) = map fst (map ?g (vehicles y))"
    by (rule arg_cong)
  then have keys: "map fst (vehicles x) = map fst (vehicles y)"
    by (simp add: comp_def case_prod_beta)
  from x have d: "distinct (map fst (vehicles x))" by (simp add: valid_board_def)
  have "vehicles x ! i = vehicles y ! i" if i: "i < length (vehicles x)" for i
  proof -
    obtain k v where a: "vehicles x ! i = (k, v)" by (cases "vehicles x ! i")
    obtain k' v' where b: "vehicles y ! i = (k', v')" by (cases "vehicles y ! i")
    from mp have "map ?g (vehicles x) ! i = map ?g (vehicles y) ! i"
      by (rule arg_cong)
    then have "?g (vehicles x ! i) = ?g (vehicles y ! i)"
      using i len by simp
    with a b have e: "k' = k" "id_v v = id_v v'" "orientation v = orientation v'"
      "length_v v = length_v v'" by simp_all
    have "vehicles x ! i \<in> set (vehicles x)" using i by (rule nth_mem)
    then have "(k, v) \<in> set (vehicles x)" using a by simp
    moreover have "vehicles y ! i \<in> set (vehicles y)" using i len by (intro nth_mem) simp
    then have "(k, v') \<in> set (vehicles y)" using b e by simp
    ultimately have "row v = row v' \<and> col v = col v'"
      using hash_lookup [OF h keys _ _ d] by blast
    with e have "v = v'" by simp
    with a b e show ?thesis by simp
  qed
  with len have "vehicles x = vehicles y" by (rule nth_equalityI)
  with sz show ?thesis by simp
qed

lemma reachable_injective:
  assumes "valid_board root" "reachable root x" "reachable root y"
    "get_state_hash x = get_state_hash y"
  shows "x = y"
proof -
  from assms(2,3) obtain ms ms' where "legal_path root ms" "replay root ms = x"
    "legal_path root ms'" "replay root ms' = y"
    unfolding reachable_def by blast
  with legal_path_valid [OF assms(1), of ms] legal_path_valid [OF assms(1), of ms']
  have "valid_board x" "valid_board y" "shape x = shape y"
    by simp_all
  with assms(4) show ?thesis by (intro hash_injective)
qed

lemma within_reachable: "within root d x \<Longrightarrow> reachable root x"
  unfolding within_def reachable_def by blast

lemma within_mono: "within root d x \<Longrightarrow> d \<le> d' \<Longrightarrow> within root d' x"
  unfolding within_def by force

lemma within_step:
  assumes "within root d x" "mv \<in> set (get_possible_moves x)"
  shows "within root (d + 1) (move x (fst mv) (snd mv))"
proof -
  from assms(1) obtain ms where ms: "legal_path root ms" "int (length ms) \<le> d" "replay root ms = x"
    unfolding within_def by blast
  with assms(2) have "legal_path root (ms @ [mv]) \<and> int (length (ms @ [mv])) \<le> d + 1
      \<and> replay root (ms @ [mv]) = move x (fst mv) (snd mv)"
    by (simp add: legal_path_snoc replay_snoc)
  then show ?thesis unfolding within_def by (intro exI)
qed

lemma within_cases:
  assumes "within root (d + 1) x" "0 \<le> d"
  shows "within root d x
     \<or> (\<exists>x' mv. within root d x' \<and> mv \<in> set (get_possible_moves x') \<and> x = move x' (fst mv) (snd mv))"
proof -
  from assms(1) obtain ms where ms: "legal_path root ms" "int (length ms) \<le> d + 1" "replay root ms = x"
    unfolding within_def by blast
  show ?thesis
  proof (cases "int (length ms) \<le> d")
    case True
    with ms show ?thesis unfolding within_def by blast
  next
    case False
    with ms(2) assms(2) have "ms \<noteq> []" by auto
    then obtain p mv where p: "ms = p @ [mv]" by (metis rev_exhaust)
    with ms have "legal_path root p" "mv \<in> set (get_possible_moves (replay root p))"
      "int (length p) \<le> d" "x = move (replay root p) (fst mv) (snd mv)"
      by (simp_all add: legal_path_snoc replay_snoc)
    then show ?thesis unfolding within_def by blast
  qed
qed

lemma within_zero: "within root 0 x \<longleftrightarrow> x = root"
proof
  assume "within root 0 x"
  then obtain ms where "int (length ms) \<le> 0" "replay root ms = x"
    unfolding within_def by blast
  then show "x = root" by simp
next
  assume "x = root"
  then have "legal_path root [] \<and> int (length ([] :: move list)) \<le> 0 \<and> replay root [] = x"
    by simp
  then show "within root 0 x" unfolding within_def by blast
qed

lemma level_invD:
  assumes "level_inv root d A B vis"
  shows "0 \<le> d"
    and "\<And>e. e \<in> set A \<Longrightarrow> fst (snd e) = d \<and> within root d (fst e)"
    and "\<And>e. e \<in> set B \<Longrightarrow> fst (snd e) = d + 1 \<and> within root (d + 1) (fst e)"
    and "\<And>x. within root d x \<Longrightarrow> get_state_hash x \<in> vis"
    and "\<And>x. within root d x \<Longrightarrow> x \<notin> fst ` set A \<Longrightarrow> mv \<in> set (get_possible_moves x) \<Longrightarrow>
            get_state_hash (move x (fst mv) (snd mv)) \<in> vis"
    and "\<And>x. reachable root x \<Longrightarrow> get_state_hash x \<in> vis \<Longrightarrow> \<not> is_solved x"
    and "\<And>x. reachable root x \<Longrightarrow> get_state_hash x \<in> vis \<Longrightarrow> \<not> within root d x \<Longrightarrow>
            x \<in> fst ` set B"
  using assms unfolding level_inv_def by blast+

lemma level_invI:
  assumes "0 \<le> d"
    and "\<And>e. e \<in> set A \<Longrightarrow> fst (snd e) = d \<and> within root d (fst e)"
    and "\<And>e. e \<in> set B \<Longrightarrow> fst (snd e) = d + 1 \<and> within root (d + 1) (fst e)"
    and "\<And>x. within root d x \<Longrightarrow> get_state_hash x \<in> vis"
    and "\<And>x mv. within root d x \<Longrightarrow> x \<notin> fst ` set A \<Longrightarrow> mv \<in> set (get_possible_moves x) \<Longrightarrow>
            get_state_hash (move x (fst mv) (snd mv)) \<in> vis"
    and "\<And>x. reachable root x \<Longrightarrow> get_state_hash x \<in> vis \<Longrightarrow> \<not> is_solved x"
    and "\<And>x. reachable root x \<Longrightarrow> get_state_hash x \<in> vis \<Longrightarrow> \<not> within root d x \<Longrightarrow>
            x \<in> fst ` set B"
  shows "level_inv root d A B vis"
  unfolding level_inv_def
proof (intro conjI allI impI ballI)
  show "0 \<le> d" by (rule assms(1))
next
  fix e assume "e \<in> set A"
  from assms(2) [OF this] show "fst (snd e) = d" "within root d (fst e)" by simp_all
next
  fix e assume "e \<in> set B"
  from assms(3) [OF this] show "fst (snd e) = d + 1" "within root (d + 1) (fst e)" by simp_all
next
  fix x assume "within root d x"
  then show "get_state_hash x \<in> vis" by (rule assms(4))
next
  fix x assume w: "within root d x"
  show "x \<in> fst ` set A
     \<or> (\<forall>mv \<in> set (get_possible_moves x). get_state_hash (move x (fst mv) (snd mv)) \<in> vis)"
  proof (cases "x \<in> fst ` set A")
    case True
    then show ?thesis by (rule disjI1)
  next
    case False
    with assms(5) [OF w] show ?thesis by blast
  qed
next
  fix x assume "reachable root x \<and> get_state_hash x \<in> vis"
  then show "\<not> is_solved x" using assms(6) by blast
next
  fix x assume r: "reachable root x \<and> get_state_hash x \<in> vis"
  show "within root d x \<or> x \<in> fst ` set B"
  proof (cases "within root d x")
    case True
    then show ?thesis by (rule disjI1)
  next
    case False
    with assms(7) r show ?thesis by blast
  qed
qed

lemma level_switch:
  assumes inv: "level_inv root d [] B vis"
  shows "level_inv root (d + 1) B [] vis"
proof (rule level_invI)
  note D = level_invD [OF inv]
  show "0 \<le> d + 1" using D(1) by simp
  show "fst (snd e) = d + 1 \<and> within root (d + 1) (fst e)" if "e \<in> set B" for e
    using D(3) [OF that] .
  show "fst (snd e) = d + 1 + 1 \<and> within root (d + 1 + 1) (fst e)" if "e \<in> set []" for e :: entry
    using that by simp
  have closed: "get_state_hash (move x (fst mv) (snd mv)) \<in> vis"
    if "within root d x" "mv \<in> set (get_possible_moves x)" for x mv
    using D(5) [OF that(1) _ that(2)] by simp
  have seen: "get_state_hash x \<in> vis" if w: "within root (d + 1) x" for x
    using within_cases [OF w D(1)]
  proof
    assume "within root d x"
    then show ?thesis by (rule D(4))
  next
    assume "\<exists>x' mv. within root d x' \<and> mv \<in> set (get_possible_moves x')
        \<and> x = move x' (fst mv) (snd mv)"
    then obtain x' mv where "within root d x'" "mv \<in> set (get_possible_moves x')"
      "x = move x' (fst mv) (snd mv)" by blast
    with closed show ?thesis by simp
  qed
  show "get_state_hash x \<in> vis" if "within root (d + 1) x" for x
    using seen [OF that] .
  show "get_state_hash (move x (fst mv) (snd mv)) \<in> vis"
    if w: "within root (d + 1) x" and nb: "x \<notin> fst ` set B"
      and mv: "mv \<in> set (get_possible_moves x)" for x mv
  proof -
    have "within root d x"
    proof (rule ccontr)
      assume "\<not> within root d x"
      from D(7) [OF within_reachable [OF w] seen [OF w] this] nb show False by simp
    qed
    from closed [OF this mv] show ?thesis .
  qed
  show "\<not> is_solved x" if "reachable root x" "get_state_hash x \<in> vis" for x
    using D(6) [OF that] .
  show "x \<in> fst ` set ([] :: entry list)"
    if r: "reachable root x" and h: "get_state_hash x \<in> vis" and n: "\<not> within root (d + 1) x" for x
  proof -
    from n have nd: "\<not> within root d x" using within_mono [of root d x "d + 1"] by auto
    from D(7) [OF r h nd] obtain e where "e \<in> set B" "x = fst e" by blast
    with D(3) [of e] n show ?thesis by simp
  qed
qed

lemma level_head:
  assumes "e # rest = A @ B" "level_inv root d A B vis"
  shows "\<exists>d' A' B'. rest = A' @ B' \<and> level_inv root d' (e # A') B' vis"
proof (cases A)
  case Nil
  with assms have "level_inv root (d + 1) (e # rest) [] vis"
    using level_switch [of root d B vis] by simp
  then have "rest = rest @ [] \<and> level_inv root (d + 1) (e # rest) [] vis" by simp
  then show ?thesis by blast
next
  case (Cons a A')
  with assms have "rest = A' @ B \<and> level_inv root d (e # A') B vis" by simp
  then show ?thesis by blast
qed

lemma level_skip:
  assumes inv: "level_inv root d ((cur, m, p) # A) B vis" and big: "MAX_DEPTH \<le> m"
  shows "\<forall>e \<in> set (A @ B). MAX_DEPTH \<le> fst (snd e)"
proof
  fix e assume e: "e \<in> set (A @ B)"
  note D = level_invD [OF inv]
  from D(2) [of "(cur, m, p)"] have m: "m = d" by simp
  from e D(2) [of e] D(3) [of e] have "fst (snd e) = d \<or> fst (snd e) = d + 1" by auto
  with m big show "MAX_DEPTH \<le> fst (snd e)" by auto
qed

lemma level_found:
  assumes inv: "level_inv root d ((cur, m, p) # A) B vis"
    and ex: "expand cur m p (get_possible_moves cur) vis (A @ B) = Inl r"
    and ms: "legal_path root ms" "is_solved (replay root ms)"
  shows "fst (snd r) \<le> int (length ms)"
proof -
  note D = level_invD [OF inv]
  from D(2) [of "(cur, m, p)"] have m: "m = d" by simp
  from expand_Inl [OF ex] m have r: "fst (snd r) = d + 1" by auto
  have "\<not> int (length ms) \<le> d"
  proof
    assume "int (length ms) \<le> d"
    with ms(1) have w: "within root d (replay root ms)" unfolding within_def by blast
    from D(6) [OF within_reachable [OF w] D(4) [OF w]] ms(2) show False by simp
  qed
  with r show ?thesis by simp
qed

lemma level_grow:
  assumes root: "valid_board root"
    and inv: "level_inv root d ((cur, m, p) # A) B vis"
    and ex: "expand cur m p (get_possible_moves cur) vis (A @ B) = Inr (vis', q')"
  shows "\<exists>B'. q' = A @ B' \<and> level_inv root d A B' vis'"
proof -
  note D = level_invD [OF inv]
  from D(2) [of "(cur, m, p)"] have m: "m = d" and cur: "within root d cur" by simp_all
  from expand_Inr [OF ex] obtain new where
    q': "q' = (A @ B) @ map (child cur m p) new"
    and sub: "set new \<subseteq> set (get_possible_moves cur)"
    and uns: "\<And>mv. mv \<in> set new \<Longrightarrow> \<not> is_solved (move cur (fst mv) (snd mv))"
    and vis': "vis' = vis \<union> (\<lambda>mv. get_state_hash (move cur (fst mv) (snd mv))) ` set new"
    and all: "\<And>mv. mv \<in> set (get_possible_moves cur) \<Longrightarrow>
                get_state_hash (move cur (fst mv) (snd mv)) \<in> vis'"
    by blast
  let ?B' = "B @ map (child cur m p) new"
  have kid: "within root (d + 1) (move cur (fst mv) (snd mv))" if "mv \<in> set new" for mv
    using within_step [OF cur] that sub by blast
  have fresh: "\<not> is_solved x \<and> x \<in> fst ` set ?B'"
    if r: "reachable root x" and h: "get_state_hash x \<in> vis'" and old: "get_state_hash x \<notin> vis" for x
  proof -
    from h old vis' obtain mv where mv: "mv \<in> set new"
      "get_state_hash x = get_state_hash (move cur (fst mv) (snd mv))" by auto
    from reachable_injective [OF root r within_reachable [OF kid [OF mv(1)]] mv(2)]
    have x: "x = move cur (fst mv) (snd mv)" .
    have "fst (child cur m p mv) = x" by (simp add: child_def x)
    moreover have "child cur m p mv \<in> set ?B'" using mv(1) by simp
    ultimately have "x \<in> fst ` set ?B'" by (metis image_eqI)
    with uns [OF mv(1)] x show ?thesis by simp
  qed
  have "level_inv root d A ?B' vis'"
  proof (rule level_invI)
    show "0 \<le> d" by (rule D(1))
    show "fst (snd e) = d \<and> within root d (fst e)" if "e \<in> set A" for e
      using D(2) [of e] that by simp
    show "fst (snd e) = d + 1 \<and> within root (d + 1) (fst e)" if e: "e \<in> set ?B'" for e
    proof (cases "e \<in> set B")
      case True
      then show ?thesis by (rule D(3))
    next
      case False
      with e obtain mv where "mv \<in> set new" "e = child cur m p mv" by auto
      with kid m show ?thesis by (simp add: child_def)
    qed
    show "get_state_hash x \<in> vis'" if "within root d x" for x
      using D(4) [OF that] vis' by simp
    show "get_state_hash (move x (fst mv) (snd mv)) \<in> vis'"
      if w: "within root d x" and na: "x \<notin> fst ` set A"
        and mv: "mv \<in> set (get_possible_moves x)" for x mv
    proof (cases "x = cur")
      case True
      with all mv show ?thesis by simp
    next
      case False
      with na have "x \<notin> fst ` set ((cur, m, p) # A)" by simp
      from D(5) [OF w this mv] vis' show ?thesis by simp
    qed
    show "\<not> is_solved x" if r: "reachable root x" and h: "get_state_hash x \<in> vis'" for x
    proof (cases "get_state_hash x \<in> vis")
      case True
      from D(6) [OF r True] show ?thesis .
    next
      case False
      from fresh [OF r h False] show ?thesis by simp
    qed
    show "x \<in> fst ` set ?B'"
      if r: "reachable root x" and h: "get_state_hash x \<in> vis'" and n: "\<not> within root d x" for x
    proof (cases "get_state_hash x \<in> vis")
      case True
      from D(7) [OF r True n] show ?thesis by auto
    next
      case False
      from fresh [OF r h False] show ?thesis by simp
    qed
  qed
  with q' have "q' = A @ ?B' \<and> level_inv root d A ?B' vis'" by simp
  then show ?thesis by blast
qed

lemma level_init:
  assumes root: "valid_board root" and uns: "\<not> is_solved root"
  shows "level_inv root 0 [(root, 0, [])] [] {get_state_hash root}"
proof (rule level_invI)
  show "(0 :: int) \<le> 0" by simp
  show "fst (snd e) = 0 \<and> within root 0 (fst e)" if "e \<in> set [(root, 0 :: int, [] :: move list)]" for e
    using that by (simp add: within_zero)
  show "fst (snd e) = 0 + 1 \<and> within root (0 + 1) (fst e)" if "e \<in> set []" for e :: entry
    using that by simp
  show "get_state_hash x \<in> {get_state_hash root}" if "within root 0 x" for x
    using that by (simp add: within_zero)
  show "get_state_hash (move x (fst mv) (snd mv)) \<in> {get_state_hash root}"
    if "within root 0 x" "x \<notin> fst ` set [(root, 0 :: int, [] :: move list)]" for x mv
    using that by (simp add: within_zero)
  have same: "x = root" if "reachable root x" "get_state_hash x \<in> {get_state_hash root}" for x
  proof -
    have "reachable root root" using within_reachable [of root 0 root] by (simp add: within_zero)
    from reachable_injective [OF root that(1) this] that(2) show ?thesis by simp
  qed
  show "\<not> is_solved x" if "reachable root x" "get_state_hash x \<in> {get_state_hash root}" for x
    using same [OF that] uns by simp
  show "x \<in> fst ` set ([] :: entry list)"
    if "reachable root x" "get_state_hash x \<in> {get_state_hash root}" "\<not> within root 0 x" for x
    using same [OF that(1,2)] that(3) by (simp add: within_zero)
qed

lemma bfs_minimal:
  assumes root: "valid_board root" and inv: "search_inv root q vis"
    and ms: "legal_path root ms" "is_solved (replay root ms)"
  shows "fst (bfs q vis) \<longrightarrow> fst (snd (bfs q vis)) \<le> int (length ms)"
proof (rule bfs_rule [where I = "search_inv root" and Q = "\<lambda>r. fst r \<longrightarrow> fst (snd r) \<le> int (length ms)"])
  show "search_inv root q vis" by (rule inv)
next
  fix cur m p q vis
  assume I: "search_inv root ((cur, m, p) # q) vis" and big: "MAX_DEPTH \<le> m"
  from I show "search_inv root q vis"
    unfolding search_inv_def
  proof
    assume "\<exists>d A B. (cur, m, p) # q = A @ B \<and> level_inv root d A B vis"
    then obtain d A B where "(cur, m, p) # q = A @ B" "level_inv root d A B vis" by blast
    from level_head [OF this] obtain d' A' B' where
      "q = A' @ B'" "level_inv root d' ((cur, m, p) # A') B' vis" by blast
    with level_skip [OF this(2) big]
    show "(\<exists>d A B. q = A @ B \<and> level_inv root d A B vis) \<or> (\<forall>e \<in> set q. MAX_DEPTH \<le> fst (snd e))"
      by simp
  next
    assume "\<forall>e \<in> set ((cur, m, p) # q). MAX_DEPTH \<le> fst (snd e)"
    then show "(\<exists>d A B. q = A @ B \<and> level_inv root d A B vis) \<or> (\<forall>e \<in> set q. MAX_DEPTH \<le> fst (snd e))"
      by simp
  qed
next
  fix cur m p q vis vis' q'
  assume I: "search_inv root ((cur, m, p) # q) vis" and small: "\<not> MAX_DEPTH \<le> m"
    and ex: "expand cur m p (get_possible_moves cur) vis q = Inr (vis', q')"
  from I small have "\<exists>d A B. (cur, m, p) # q = A @ B \<and> level_inv root d A B vis"
    unfolding search_inv_def by auto
  then obtain d A B where "(cur, m, p) # q = A @ B" "level_inv root d A B vis" by blast
  from level_head [OF this] obtain d' A' B' where
    q: "q = A' @ B'" and L: "level_inv root d' ((cur, m, p) # A') B' vis" by blast
  from level_grow [OF root L ex [unfolded q]] show "search_inv root q' vis'"
    unfolding search_inv_def by blast
next
  fix cur m p q vis r
  assume I: "search_inv root ((cur, m, p) # q) vis" and small: "\<not> MAX_DEPTH \<le> m"
    and ex: "expand cur m p (get_possible_moves cur) vis q = Inl r"
  from I small have "\<exists>d A B. (cur, m, p) # q = A @ B \<and> level_inv root d A B vis"
    unfolding search_inv_def by auto
  then obtain d A B where "(cur, m, p) # q = A @ B" "level_inv root d A B vis" by blast
  from level_head [OF this] obtain d' A' B' where
    q: "q = A' @ B'" and L: "level_inv root d' ((cur, m, p) # A') B' vis" by blast
  from level_found [OF L ex [unfolded q] ms] show "fst r \<longrightarrow> fst (snd r) \<le> int (length ms)"
    by simp
next
  show "fst (False, 0 :: int, [] :: move list) \<longrightarrow> fst (snd (False, 0 :: int, [] :: move list)) \<le> int (length ms)"
    by simp
qed

lemma solve_board_minimal:
  assumes root: "valid_board b" and res: "solve_board b = (True, k, path)"
    and ms: "legal_path b ms" "is_solved (replay b ms)"
  shows "k \<le> int (length ms)"
proof (cases "is_solved b")
  case True
  with res have "k = 0" by (simp add: solve_board_def)
  then show ?thesis by simp
next
  case False
  with res have bfs: "bfs [(b, 0, [])] {get_state_hash b} = (True, k, path)"
    by (simp add: solve_board_def)
  have "[(b, 0, [])] = [(b, 0, [])] @ [] \<and> level_inv b 0 [(b, 0, [])] [] {get_state_hash b}"
    using level_init [OF root False] by simp
  then have "search_inv b [(b, 0, [])] {get_state_hash b}"
    unfolding search_inv_def by blast
  from bfs_minimal [OF root this ms] bfs show ?thesis by simp
qed

lemma bfs_legal:
  assumes "\<forall>e \<in> set q. legal_ok root e"
  shows "\<forall>k path. bfs q vis = (True, k, path) \<longrightarrow> legal_path root path"
proof (rule bfs_rule [where I = "\<lambda>q vis. \<forall>e \<in> set q. legal_ok root e"])
  show "\<forall>e \<in> set q. legal_ok root e" by (rule assms)
next
  fix cur m p q vis
  assume "\<forall>e \<in> set ((cur, m, p) # q). legal_ok root e"
  then show "\<forall>e \<in> set q. legal_ok root e" by simp
next
  fix cur m p q vis vis' q'
  assume I: "\<forall>e \<in> set ((cur, m, p) # q). legal_ok root e"
    and ex: "expand cur m p (get_possible_moves cur) vis q = Inr (vis', q')"
  from I have c: "legal_path root p" "replay root p = cur" by (simp_all add: legal_ok_def)
  from expand_Inr [OF ex] obtain new where q': "q' = q @ map (child cur m p) new"
    and sub: "set new \<subseteq> set (get_possible_moves cur)" by blast
  have "legal_ok root (child cur m p mv)" if "mv \<in> set new" for mv
    using c that sub by (auto simp: legal_ok_def child_def replay_snoc legal_path_snoc)
  with I q' show "\<forall>e \<in> set q'. legal_ok root e" by auto
next
  fix cur m p q vis r
  assume I: "\<forall>e \<in> set ((cur, m, p) # q). legal_ok root e"
    and ex: "expand cur m p (get_possible_moves cur) vis q = Inl r"
  from I have c: "legal_path root p" "replay root p = cur" by (simp_all add: legal_ok_def)
  from expand_Inl [OF ex] obtain mv where
    "mv \<in> set (get_possible_moves cur)" "r = (True, m + 1, p @ [mv])" by blast
  with c show "\<forall>k path. r = (True, k, path) \<longrightarrow> legal_path root path"
    by (simp add: legal_path_snoc)
next
  show "\<forall>k path. (False, 0, []) = (True, k, path) \<longrightarrow> legal_path root path" by simp
qed

lemma solve_board_legal:
  assumes "solve_board b = (True, k, path)"
  shows "legal_path b path"
proof (cases "is_solved b")
  case True
  with assms show ?thesis by (auto simp: solve_board_def)
next
  case False
  with assms have "bfs [(b, 0, [])] {get_state_hash b} = (True, k, path)"
    by (simp add: solve_board_def)
  moreover have "\<forall>e \<in> set [(b, 0, [])]. legal_ok b e" by (simp add: legal_ok_def)
  ultimately show ?thesis using bfs_legal by blast
qed

text \<open>
  C1. On a valid board, whenever \<open>solve_board\<close> returns \<open>(True, k, path)\<close>, the number
  \<open>k\<close> is the distance from the input board to the nearest solved board in the graph
  whose edges are the moves of \<open>get_possible_moves\<close>: the returned path is a path of that
  graph (every move is one that \<open>get_possible_moves\<close> produces for the board it is
  applied to), it has \<open>k\<close> moves and ends on a solved board; and no path of the graph
  with \<open>k - 1\<close> or fewer moves leads from the input board to a solved board. (The depth
  ceiling does not matter here: a search that returns a solution has expanded every
  board of the earlier levels.)
\<close>

theorem solve_board_minimum:
  assumes "valid_board b" and "solve_board b = (True, k, path)"
  shows "legal_path b path \<and> int (length path) = k \<and> is_solved (replay b path)
     \<and> (\<forall>ms. legal_path b ms \<and> int (length ms) \<le> k - 1 \<longrightarrow> \<not> is_solved (replay b ms))"
proof (intro conjI allI impI notI)
  show "legal_path b path" by (rule solve_board_legal [OF assms(2)])
  show "int (length path) = k" "is_solved (replay b path)"
    using solve_board_path [OF assms(2)] by simp_all
next
  fix ms assume "legal_path b ms \<and> int (length ms) \<le> k - 1" and "is_solved (replay b ms)"
  with solve_board_minimal [OF assms, of ms] show False by simp
qed

theorem solve_board_minimum_witness:
  "valid_board board_blocked
   \<and> solve_board board_blocked = (True, 2, [(''car_1'', 1), (''target'', 4)])
   \<and> legal_path board_blocked [(''car_1'', 1), (''target'', 4)]
   \<and> is_solved (replay board_blocked [(''car_1'', 1), (''target'', 4)])
   \<and> legal_path board_blocked [(''car_1'', 2)]
   \<and> int (length [(''car_1'', 2 :: int)]) \<le> 2 - 1
   \<and> \<not> is_solved (replay board_blocked [(''car_1'', 2)])"
proof -
  have h: "valid_board board_blocked"
    "solve_board board_blocked = (True, 2, [(''car_1'', 1), (''target'', 4)])"
    by code_simp+
  have l: "legal_path board_blocked [(''car_1'', 2)]"
    by code_simp
  note t = solve_board_minimum [OF h]
  from t [THEN conjunct2, THEN conjunct2, THEN conjunct2, THEN spec, of "[(''car_1'', 2)]"] l
  have "\<not> is_solved (replay board_blocked [(''car_1'', 2)])" by simp
  with t h l show ?thesis by simp
qed

end
